theory Spec2Isabelle
  imports Complex_Main "HOL-Library.Sublist"
begin

section \<open>JavaScript values, objects and the heap\<close>

text \<open>
  The library under study (\<^verbatim>\<open>src/index.js\<close>) keeps the state of a store in a mutable
  object, hands references to that object around, and records deep copies of it.  Objects are
  therefore kept in an explicit heap: an address is an index into a list of objects, a
  reference is a value \<open>VRef a\<close>, and allocating an object appends it to the heap.

  Numbers are IEEE doubles in the source.  The code only compares them and truncates them
  (\<^verbatim>\<open>isNaN\<close>, \<^verbatim>\<open><\<close>, \<^verbatim>\<open>></\<close>, \<^verbatim>\<open>slice\<close>), which is exact, so a finite number is kept
  as a rational; every double is one.

  A function value is external code.  It carries an identity and what a call to it does:
  it returns or it throws, and when the store calls it as a \<^verbatim>\<open>setState\<close> it may before that
  call \<^verbatim>\<open>unsubscribe\<close> on the store it is handed, any number of times and for any objects.
  It is taken not to call \<^verbatim>\<open>subscribe\<close> or \<^verbatim>\<open>setStoreState\<close>, which would start the
  operation again inside itself.

  The values that a state holds are plain data: primitives, functions, plain objects and
  arrays.  Prototypes, accessors and symbol keys are left out; a property is an own property.
\<close>

type_synonym addr = nat

datatype jsnum = NaN | PosInf | NegInf | Fin rat

datatype outcome = Returns | Throws | Unsubscribing addr outcome

datatype jsval =
    VUndefined
  | VNull
  | VBool bool
  | VNum jsnum
  | VStr string
  | VFun nat outcome
  | VRef addr

datatype jsobj =
    Obj "(string \<times> jsval) list"
  | Arr "jsval list"

type_synonym heap = "jsobj list"

text \<open>\<^verbatim>\<open>a === b\<close>: identity on references, equality on primitives, and \<^verbatim>\<open>NaN\<close> differs from
  everything, itself included.\<close>

definition strict_eq :: "jsval \<Rightarrow> jsval \<Rightarrow> bool" where
  "strict_eq a b = (a = b \<and> a \<noteq> VNum NaN)"

text \<open>\<^verbatim>\<open>isNaN(n)\<close>, \<^verbatim>\<open>a < b\<close> and \<^verbatim>\<open>a > b\<close> on numbers.\<close>

definition isNaN :: "jsnum \<Rightarrow> bool" where
  "isNaN n = (n = NaN)"

fun js_lt :: "jsnum \<Rightarrow> jsnum \<Rightarrow> bool" where
  "js_lt NaN b = False"
| "js_lt a NaN = False"
| "js_lt PosInf b = False"
| "js_lt NegInf b = (b \<noteq> NegInf)"
| "js_lt (Fin x) PosInf = True"
| "js_lt (Fin x) NegInf = False"
| "js_lt (Fin x) (Fin y) = (x < y)"

definition js_gt :: "jsnum \<Rightarrow> jsnum \<Rightarrow> bool" where
  "js_gt a b = js_lt b a"

text \<open>
  \<^verbatim>\<open>Number(v)\<close>.  The cases of undefined, null, booleans and numbers are the language's;
  the conversion of strings (the numeric-literal grammar) and of objects and functions
  (\<^verbatim>\<open>valueOf\<close>/\<^verbatim>\<open>toString\<close>) is a parameter \<open>ext\<close>.  Converting an object can throw (a
  \<^verbatim>\<open>valueOf\<close> that throws): the result is then \<open>None\<close>.
\<close>

fun ToNumber :: "(jsval \<Rightarrow> jsnum option) \<Rightarrow> jsval \<Rightarrow> jsnum option" where
  "ToNumber ext VUndefined = Some NaN"
| "ToNumber ext VNull = Some (Fin 0)"
| "ToNumber ext (VBool b) = Some (Fin (if b then 1 else 0))"
| "ToNumber ext (VNum n) = Some n"
| "ToNumber ext v = ext v"

text \<open>
  \<^verbatim>\<open>xs.slice(0, e)\<close>: the end is truncated towards zero; a negative end counts from the
  back of the array; \<^verbatim>\<open>NaN\<close> counts as 0.
\<close>

definition slice0 :: "'a list \<Rightarrow> jsnum \<Rightarrow> 'a list" where
  "slice0 xs e =
     (case e of
        NaN \<Rightarrow> []
      | PosInf \<Rightarrow> xs
      | NegInf \<Rightarrow> []
      | Fin r \<Rightarrow>
          (let k = (if r < 0 then \<lceil>r\<rceil> else \<lfloor>r\<rfloor>)
           in if k < 0 then take (nat (int (length xs) + k)) xs else take (nat k) xs))"

text \<open>
  \<^verbatim>\<open>isObject(v)\<close> of the package \<^verbatim>\<open>isobject\<close>:
  \<^verbatim>\<open>val != null && typeof val === 'object' && Array.isArray(val) === false\<close>.
\<close>

definition isObject :: "heap \<Rightarrow> jsval \<Rightarrow> bool" where
  "isObject h v =
     (case v of
        VRef a \<Rightarrow> a < length h \<and> (case h ! a of Obj ps \<Rightarrow> True | Arr vs \<Rightarrow> False)
      | _ \<Rightarrow> False)"

text \<open>\<^verbatim>\<open>isFunction(f)\<close> of the package \<^verbatim>\<open>is-function\<close>.\<close>

definition isFunction :: "jsval \<Rightarrow> bool" where
  "isFunction f = (case f of VFun i b \<Rightarrow> True | _ \<Rightarrow> False)"

text \<open>
  \<^verbatim>\<open>v.setState\<close>: reading a property of \<^verbatim>\<open>undefined\<close> or \<^verbatim>\<open>null\<close> is a TypeError (the
  result \<open>None\<close>); a value without the property gives \<^verbatim>\<open>undefined\<close>.  Only own properties
  of objects are modelled.
\<close>

definition get_setState :: "heap \<Rightarrow> jsval \<Rightarrow> jsval option" where
  "get_setState h v =
     (case v of
        VUndefined \<Rightarrow> None
      | VNull \<Rightarrow> None
      | VRef a \<Rightarrow>
          (if a < length h
           then (case h ! a of
                   Obj ps \<Rightarrow> (case map_of ps ''setState'' of Some f \<Rightarrow> Some f | None \<Rightarrow> Some VUndefined)
                 | Arr vs \<Rightarrow> Some VUndefined)
           else Some VUndefined)
      | _ \<Rightarrow> Some VUndefined)"

text \<open>
  \<^verbatim>\<open>clone(v)\<close> of the package \<^verbatim>\<open>clone\<close>: a deep copy that keeps sharing and cycles, and
  returns primitives and functions as they are.  The copy is made by relocation: every
  object of the heap is copied to the address \<open>length h\<close> further on, with its references
  moved by the same distance.  The copy of the object at \<open>a\<close> is then at \<open>a + length h\<close>;
  copies of objects that \<open>a\<close> does not reach are garbage that nothing refers to.
\<close>

fun shift_val :: "nat \<Rightarrow> jsval \<Rightarrow> jsval" where
  "shift_val n (VRef a) = VRef (a + n)"
| "shift_val n v = v"

fun shift_obj :: "nat \<Rightarrow> jsobj \<Rightarrow> jsobj" where
  "shift_obj n (Obj ps) = Obj (map (\<lambda>(k, v). (k, shift_val n v)) ps)"
| "shift_obj n (Arr vs) = Arr (map (shift_val n) vs)"

definition clone :: "heap \<Rightarrow> jsval \<Rightarrow> heap \<times> jsval" where
  "clone h v =
     (case v of
        VRef a \<Rightarrow> (h @ map (shift_obj (length h)) h, VRef (a + length h))
      | _ \<Rightarrow> (h, v))"

text \<open>
  \<^verbatim>\<open>Object.assign(target, source)\<close> for two plain objects: each own property of the source,
  in order, is written to the target; an existing key keeps its place, a new key is added
  at the end.  Keys are taken to be ordinary names: the early place that integer-like keys
  take in the order of an object, and the key \<^verbatim>\<open>__proto__\<close>, which an assignment hands to
  the inherited setter, are left out.
\<close>

fun put :: "string \<Rightarrow> 'a \<Rightarrow> (string \<times> 'a) list \<Rightarrow> (string \<times> 'a) list" where
  "put k v [] = [(k, v)]"
| "put k v ((k', v') # ps) = (if k' = k then (k, v) # ps else (k', v') # put k v ps)"

fun assign_props :: "(string \<times> jsval) list \<Rightarrow> (string \<times> jsval) list \<Rightarrow> (string \<times> jsval) list" where
  "assign_props tp [] = tp"
| "assign_props tp ((k, v) # sp) = assign_props (put k v tp) sp"

fun props_of :: "jsobj \<Rightarrow> (string \<times> jsval) list" where
  "props_of (Obj ps) = ps"
| "props_of (Arr vs) = []"

definition Object_assign :: "heap \<Rightarrow> addr \<Rightarrow> addr \<Rightarrow> heap" where
  "Object_assign h t src = h[t := Obj (assign_props (props_of (h ! t)) (props_of (h ! src)))]"

section \<open>Errors and console output\<close>

text \<open>
  Every \<^verbatim>\<open>throwError(message, varToDump)\<close> of the source is one constructor of \<open>error\<close>;
  \<open>TypeError\<close> is the runtime's own error (calling something that is not a function, reading
  a property of \<^verbatim>\<open>undefined\<close>), and \<open>CallbackThrew i\<close> is whatever the function \<open>i\<close> threw.
\<close>

datatype error =
    StoreNameInvalid
  | StateMustBeObject
  | LogFlagNotBoolean
  | HistoryDepthInvalid
  | SubscriberWithoutSetState
  | AlreadySubscribed string
  | StoresNotAnArray
  | InvalidStoreInstance
  | DuplicateStoreName string
  | StoreNamesNotAnArray
  | StoreNameNotAString
  | NoSuchStore string
  | TypeError
  | CallbackThrew nat

record store =
  name :: string
  state :: addr
  previousStates :: "jsval list"
  subscribers :: "jsval list"
  logStateToConsole :: bool
  numberOfPreviousStatesToKeep :: jsnum

text \<open>
  What a call sends out: \<^verbatim>\<open>console.error(v)\<close>, \<^verbatim>\<open>console.log(prefix + name, date, state)\<close>
  (the date is left out), and a call \<^verbatim>\<open>subscriber.setState({[name]: store})\<close>.  The payload
  holds a reference to the store, so the event records the store and the heap as they are
  when the call is made: that is all the callee can see through the reference.
\<close>

datatype event =
    ConsoleError jsval
  | ConsoleErrorNames "string list"
  | ConsoleErrorRegistry "(string \<times> nat) list option"
  | ConsoleLog string jsval
  | SetStateCall jsval string store heap

text \<open>
  \<^verbatim>\<open>throwError\<close> (lines 12-15).  The second parameter has the sentinel string as its default,
  which an argument that is \<^verbatim>\<open>undefined\<close> takes too; the value is printed unless it is the
  sentinel.
\<close>

definition throwError :: "error \<Rightarrow> jsval \<Rightarrow> error \<times> event list" where
  "throwError message arg =
     (let varToDump = (if arg = VUndefined then VStr ''varToDumpNotReceived'' else arg)
      in (message,
          if \<not> strict_eq varToDump (VStr ''varToDumpNotReceived'')
          then [ConsoleError varToDump] else []))"

text \<open>\<^verbatim>\<open>validateNewState\<close> (lines 17-19): \<open>None\<close> when the value passes.\<close>

definition validateNewState :: "heap \<Rightarrow> jsval \<Rightarrow> (error \<times> event list) option" where
  "validateNewState h newState =
     (if \<not> isObject h newState then Some (throwError StateMustBeObject newState) else None)"

section \<open>The Store\<close>

text \<open>\<^verbatim>\<open>doLogStateToConsole\<close> (lines 41-43).\<close>

definition doLogStateToConsole :: "store \<Rightarrow> event list" where
  "doLogStateToConsole s =
     (if logStateToConsole s then [ConsoleLog (name s) (VRef (state s))] else [])"

text \<open>\<^verbatim>\<open>addCurrentStateToPreviousStates\<close> (lines 45-50).\<close>

definition addCurrentStateToPreviousStates :: "heap \<Rightarrow> store \<Rightarrow> heap \<times> store" where
  "addCurrentStateToPreviousStates h s =
     (let (h', c) = clone h (VRef (state s));
          ps = c # previousStates s
      in (h', s\<lparr>previousStates :=
                  (if js_gt (Fin (of_nat (length ps))) (numberOfPreviousStatesToKeep s)
                   then slice0 ps (numberOfPreviousStatesToKeep s)
                   else ps)\<rparr>))"

text \<open>\<^verbatim>\<open>unsubscribe\<close> (lines 70-77): the first match is spliced out and the loop ends.\<close>

fun remove_first :: "jsval \<Rightarrow> jsval list \<Rightarrow> jsval list" where
  "remove_first u [] = []"
| "remove_first u (x # xs) = (if strict_eq x u then xs else x # remove_first u xs)"

definition unsubscribe :: "jsval \<Rightarrow> store \<Rightarrow> store" where
  "unsubscribe unsubscriber s = s\<lparr>subscribers := remove_first unsubscriber (subscribers s)\<rparr>"

text \<open>
  What a called \<^verbatim>\<open>setState\<close> does to the store it is handed: whether it throws, and the
  store as it leaves it.
\<close>

fun react :: "outcome \<Rightarrow> store \<Rightarrow> bool \<times> store" where
  "react Returns s = (False, s)"
| "react Throws s = (True, s)"
| "react (Unsubscribing a b) s = react b (unsubscribe (VRef a) s)"

text \<open>
  The arrow function of lines 56-58, \<^verbatim>\<open>subscriber => { subscriber.setState({[this.name]: this}) }\<close>,
  applied to one subscriber: a \<^verbatim>\<open>setState\<close> that is not callable is a TypeError; a call is
  sent out with the store as it is when the call is made.
\<close>

definition call_setState :: "heap \<Rightarrow> store \<Rightarrow> jsval \<Rightarrow> error option \<times> store \<times> event list" where
  "call_setState h s sub =
     (case get_setState h sub of
        Some (VFun i b) \<Rightarrow>
          (case react b s of
             (True, s1) \<Rightarrow> (Some (CallbackThrew i), s1, [SetStateCall sub (name s) s h])
           | (False, s1) \<Rightarrow> (None, s1, [SetStateCall sub (name s) s h]))
      | _ \<Rightarrow> (Some TypeError, s, []))"

text \<open>
  \<^verbatim>\<open>this.subscribers.forEach(...)\<close> (lines 56-58).  \<^verbatim>\<open>forEach\<close> reads the length of the array
  once, then visits the indices below it in order, each time reading the array as it then
  is: an index that a removal has left beyond the end is skipped.  \<open>notify_loop n k\<close> is the
  loop with \<open>n\<close> indices still to visit, the next being \<open>k\<close>.  A call that throws ends the
  loop with the error.
\<close>

fun notify_loop :: "nat \<Rightarrow> nat \<Rightarrow> heap \<Rightarrow> store \<Rightarrow> error option \<times> store \<times> event list" where
  "notify_loop 0 k h s = (None, s, [])"
| "notify_loop (Suc n) k h s =
     (if k < length (subscribers s)
      then (case call_setState h s (subscribers s ! k) of
              (Some e, s1, evs) \<Rightarrow> (Some e, s1, evs)
            | (None, s1, evs) \<Rightarrow>
                (case notify_loop n (Suc k) h s1 of (e, s2, evs') \<Rightarrow> (e, s2, evs @ evs')))
      else notify_loop n (Suc k) h s)"

definition notify :: "heap \<Rightarrow> store \<Rightarrow> error option \<times> store \<times> event list" where
  "notify h s = notify_loop (length (subscribers s)) 0 h s"

text \<open>\<^verbatim>\<open>setStoreState\<close> (lines 52-60).  The result is the error thrown, if any, the heap
  and the store as the call leaves them, and what the call sent out.\<close>

definition setStoreState :: "jsval \<Rightarrow> heap \<Rightarrow> store \<Rightarrow> error option \<times> heap \<times> store \<times> event list" where
  "setStoreState newState h s =
     (case validateNewState h newState of
        Some (e, evs) \<Rightarrow> (Some e, h, s, evs)
      | None \<Rightarrow>
          (case addCurrentStateToPreviousStates h s of
             (h1, s1) \<Rightarrow>
               (let h2 = (case newState of VRef src \<Rightarrow> Object_assign h1 (state s1) src | _ \<Rightarrow> h1)
                in case notify h2 s1 of
                     (Some e, s2, evs) \<Rightarrow> (Some e, h2, s2, evs)
                   | (None, s2, evs) \<Rightarrow> (None, h2, s2, evs @ doLogStateToConsole s2))))"

text \<open>\<^verbatim>\<open>subscribe\<close> (lines 62-68).\<close>

definition subscribe :: "jsval \<Rightarrow> heap \<Rightarrow> store \<Rightarrow> error option \<times> store \<times> event list" where
  "subscribe newSubscriber h s =
     (case get_setState h newSubscriber of
        None \<Rightarrow> (Some TypeError, s, [])
      | Some f \<Rightarrow>
          if \<not> isFunction f
          then (case throwError SubscriberWithoutSetState newSubscriber of (e, evs) \<Rightarrow> (Some e, s, evs))
          else if list_ex (\<lambda>subscriber. strict_eq subscriber newSubscriber) (subscribers s)
          then (case throwError (AlreadySubscribed (name s)) newSubscriber of (e, evs) \<Rightarrow> (Some e, s, evs))
          else (None, s\<lparr>subscribers := subscribers s @ [newSubscriber]\<rparr>, []))"

text \<open>\<^verbatim>\<open>validateArguments\<close> (lines 34-39), on the number already coerced.\<close>

definition validateArguments ::
  "heap \<Rightarrow> jsval \<Rightarrow> jsval \<Rightarrow> jsval \<Rightarrow> jsnum \<Rightarrow> (error \<times> event list) option" where
  "validateArguments h a_name initialState a_log n =
     (if \<not> (case a_name of VStr x \<Rightarrow> x \<noteq> [] | _ \<Rightarrow> False)
      then Some (throwError StoreNameInvalid a_name)
      else case validateNewState h initialState of
             Some e \<Rightarrow> Some e
           | None \<Rightarrow>
               if \<not> (case a_log of VBool b \<Rightarrow> True | _ \<Rightarrow> False)
               then Some (throwError LogFlagNotBoolean a_log)
               else if isNaN n \<or> js_lt n (Fin 1)
               then Some (throwError HistoryDepthInvalid (VNum n))
               else None)"

text \<open>
  The constructor (lines 22-32).  A parameter that is \<^verbatim>\<open>undefined\<close> takes its default:
  a fresh \<^verbatim>\<open>{}\<close>, \<^verbatim>\<open>false\<close>, \<^verbatim>\<open>15\<close>.  \<^verbatim>\<open>Number(...)\<close> of line 23 comes before the validation,
  and an error it throws leaves the constructor as it is.  After validation \<open>a_name\<close> is a
  string and \<open>a_log\<close> a boolean, which is what \<open>string_of\<close> and \<open>bool_of\<close> read.
\<close>

fun string_of :: "jsval \<Rightarrow> string" where
  "string_of (VStr x) = x"
| "string_of v = []"

fun bool_of :: "jsval \<Rightarrow> bool" where
  "bool_of (VBool b) = b"
| "bool_of v = False"

definition Store_constructor ::
  "(jsval \<Rightarrow> jsnum option) \<Rightarrow> jsval \<Rightarrow> jsval \<Rightarrow> jsval \<Rightarrow> jsval \<Rightarrow> heap
     \<Rightarrow> (error + store) \<times> heap \<times> event list" where
  "Store_constructor ext a_name a_init a_log a_n h =
     (let h0 = (if a_init = VUndefined then h @ [Obj []] else h);
          initialState = (if a_init = VUndefined then VRef (length h) else a_init);
          a_log' = (if a_log = VUndefined then VBool False else a_log);
          a_n' = (if a_n = VUndefined then VNum (Fin 15) else a_n)
      in case ToNumber ext a_n' of
           None \<Rightarrow> (Inl TypeError, h0, [])
         | Some parsedNumberOfPreviousStatesToKeep \<Rightarrow>
             (case validateArguments h0 a_name initialState a_log'
                     parsedNumberOfPreviousStatesToKeep of
                Some (e, evs) \<Rightarrow> (Inl e, h0, evs)
              | None \<Rightarrow>
                  (case setStoreState initialState (h0 @ [Obj []])
                          \<lparr>name = string_of a_name, state = length h0, previousStates = [],
                           subscribers = [], logStateToConsole = bool_of a_log',
                           numberOfPreviousStatesToKeep = parsedNumberOfPreviousStatesToKeep\<rparr> of
                     (None, h1, s1, evs) \<Rightarrow> (Inr s1, h1, evs)
                   | (Some e, h1, s1, evs) \<Rightarrow> (Inl e, h1, evs))))"

section \<open>Well-formed heaps, reachable stores, and what a reference denotes\<close>

text \<open>
  A heap is well formed when no object refers beyond it and no object has a key twice,
  as in every heap the language can build.
\<close>

fun val_ok :: "nat \<Rightarrow> jsval \<Rightarrow> bool" where
  "val_ok n (VRef a) = (a < n)"
| "val_ok n v = True"

fun obj_ok :: "nat \<Rightarrow> jsobj \<Rightarrow> bool" where
  "obj_ok n (Obj ps) = (distinct (map fst ps) \<and> list_all (val_ok n) (map snd ps))"
| "obj_ok n (Arr vs) = list_all (val_ok n) vs"

definition wf_heap :: "heap \<Rightarrow> bool" where
  "wf_heap h = list_all (obj_ok (length h)) h"

text \<open>
  What the program around the store does: it allocates objects (object and array literals),
  and it calls the three methods of the store, with any value at all.
\<close>

datatype action =
    Allocate "jsobj list"
  | SetStoreState jsval
  | Subscribe jsval
  | Unsubscribe jsval

fun perform :: "action \<Rightarrow> heap \<times> store \<Rightarrow> heap \<times> store" where
  "perform (Allocate objs) (h, s) = (h @ objs, s)"
| "perform (SetStoreState v) (h, s) = (case setStoreState v h s of (e, h', s', evs) \<Rightarrow> (h', s'))"
| "perform (Subscribe v) (h, s) = (case subscribe v h s of (e, s', evs) \<Rightarrow> (h, s'))"
| "perform (Unsubscribe v) (h, s) = (h, unsubscribe v s)"

fun admissible :: "heap \<Rightarrow> action \<Rightarrow> bool" where
  "admissible h (Allocate objs) = list_all (obj_ok (length h + length objs)) objs"
| "admissible h (SetStoreState v) = val_ok (length h) v"
| "admissible h (Subscribe v) = val_ok (length h) v"
| "admissible h (Unsubscribe v) = True"

fun perform_all :: "action list \<Rightarrow> heap \<times> store \<Rightarrow> heap \<times> store" where
  "perform_all [] w = w"
| "perform_all (a # as) w = perform_all as (perform a w)"

text \<open>
  The stores there are: one that the constructor has just returned, in a well-formed heap,
  and one that an action has been performed on, whether the action threw or not.
\<close>

inductive reachable :: "heap \<times> store \<Rightarrow> bool" where
  constructed:
    "wf_heap h \<Longrightarrow> val_ok (length h) a_init
      \<Longrightarrow> Store_constructor ext a_name a_init a_log a_n h = (Inr s, h', evs)
      \<Longrightarrow> reachable (h', s)"
| performed:
    "reachable w \<Longrightarrow> admissible (fst w) a \<Longrightarrow> reachable (perform a w)"

text \<open>
  The value a reference stands for is the tree it unfolds to.  Heaps may be cyclic, so the
  unfolding stops at a depth \<open>d\<close>; two values are deeply equal when they unfold to the same
  tree at every depth.
\<close>

datatype tree =
    TUndefined
  | TNull
  | TBool bool
  | TNum jsnum
  | TStr string
  | TFun nat outcome
  | TObj "(string \<times> tree) list"
  | TArr "tree list"
  | TCut
  | TDangling

fun view :: "nat \<Rightarrow> heap \<Rightarrow> jsval \<Rightarrow> tree" where
  "view d h VUndefined = TUndefined"
| "view d h VNull = TNull"
| "view d h (VBool b) = TBool b"
| "view d h (VNum n) = TNum n"
| "view d h (VStr x) = TStr x"
| "view d h (VFun i b) = TFun i b"
| "view 0 h (VRef a) = TCut"
| "view (Suc d) h (VRef a) =
     (if a < length h
      then (case h ! a of
              Obj ps \<Rightarrow> TObj (map (\<lambda>(k, v). (k, view d h v)) ps)
            | Arr vs \<Rightarrow> TArr (map (view d h) vs))
      else TDangling)"

text \<open>The subscribers that a list of events shows to have been called, in order.\<close>

fun notified :: "event list \<Rightarrow> jsval list" where
  "notified [] = []"
| "notified (SetStateCall sub k s h # evs) = sub # notified evs"
| "notified (ev # evs) = notified evs"

text \<open>The bound on the history: the length of an array against a number \<open>n\<close>.\<close>

fun within_cap :: "nat \<Rightarrow> jsnum \<Rightarrow> bool" where
  "within_cap len (Fin r) = (of_nat len \<le> r)"
| "within_cap len PosInf = True"
| "within_cap len n = False"

text \<open>
  How many of \<open>m\<close> entries the history keeps under the number \<open>n\<close>: all of them, or the
  first \<open>n\<close>, rounded down.
\<close>

fun kept :: "jsnum \<Rightarrow> nat \<Rightarrow> nat" where
  "kept (Fin r) m = min m (nat \<lfloor>r\<rfloor>)"
| "kept PosInf m = m"
| "kept n m = 0"

section \<open>The registry and the subscription binder\<close>

text \<open>
  Several stores: a Store instance is known by an identity, and \<open>store_of\<close> gives the store
  each identity stands for.  The slot \<^verbatim>\<open>root['whitelodge']\<close> is absent (\<open>None\<close>) or holds
  \<^verbatim>\<open>{stores: o}\<close>, where \<open>o\<close> is the plain object that \<^verbatim>\<open>reduce\<close> builds from \<^verbatim>\<open>{}\<close>: its own
  properties map store names to Store instances, and it inherits nothing but what every
  plain object has (\<^verbatim>\<open>hasOwnProperty\<close> among it, no \<^verbatim>\<open>forEach\<close>).
\<close>

type_synonym registry = "(string \<times> nat) list"

record app =
  objects :: heap
  store_of :: "nat \<Rightarrow> store"
  whitelodge :: "registry option"

text \<open>
  The argument of \<^verbatim>\<open>makeStoresGloballyAvailable\<close>: an array, whose elements are Store
  instances (\<^verbatim>\<open>store instanceof Store\<close>) or other values, or something that is no array.
\<close>

datatype element = Instance nat | NotInstance jsval

datatype stores_arg = ArrayOf "element list" | NotArray jsval

text \<open>The loop of lines 82-84: the first element that is no Store instance, if any.\<close>

fun first_non_instance :: "element list \<Rightarrow> jsval option" where
  "first_non_instance [] = None"
| "first_non_instance (Instance i # els) = first_non_instance els"
| "first_non_instance (NotInstance v # els) = Some v"

fun instance_ids :: "element list \<Rightarrow> nat list" where
  "instance_ids [] = []"
| "instance_ids (Instance i # els) = i # instance_ids els"
| "instance_ids (NotInstance v # els) = instance_ids els"

text \<open>
  The \<^verbatim>\<open>reduce\<close> of lines 87-92, with the accumulators \<^verbatim>\<open>storeNames\<close> and \<^verbatim>\<open>storesObject\<close>:
  a name seen before throws, with the names so far printed.  The assignment of line 90
  adds an own property, except for the name \<^verbatim>\<open>__proto__\<close>: that assignment goes to the
  inherited setter and adds none.
\<close>

fun build_registry ::
  "(nat \<Rightarrow> store) \<Rightarrow> string list \<Rightarrow> registry \<Rightarrow> nat list \<Rightarrow> (error \<times> event list) + registry" where
  "build_registry st storeNames storesObject [] = Inr storesObject"
| "build_registry st storeNames storesObject (i # rest) =
     (if name (st i) \<in> set storeNames
      then Inl (DuplicateStoreName (name (st i)), [ConsoleErrorNames storeNames])
      else build_registry st (storeNames @ [name (st i)])
             (if name (st i) = ''__proto__'' then storesObject else put (name (st i)) i storesObject)
             rest)"

text \<open>
  \<^verbatim>\<open>makeStoresGloballyAvailable\<close> (lines 80-93).  The result is the error thrown, if any, the
  slot \<^verbatim>\<open>root['whitelodge']\<close> as the call leaves it, and the output.  The two checks of the
  argument come before \<^verbatim>\<open>delete root[rootObjectName]\<close> (line 85); the check of the names is
  inside the \<^verbatim>\<open>reduce\<close>, after it, and when it throws the assignment of line 87 is not made.
\<close>

definition makeStoresGloballyAvailable ::
  "(nat \<Rightarrow> store) \<Rightarrow> stores_arg \<Rightarrow> registry option \<Rightarrow> error option \<times> registry option \<times> event list" where
  "makeStoresGloballyAvailable st stores slot =
     (case stores of
        NotArray v \<Rightarrow> (case throwError StoresNotAnArray v of (e, evs) \<Rightarrow> (Some e, slot, evs))
      | ArrayOf els \<Rightarrow>
          (case first_non_instance els of
             Some v \<Rightarrow> (case throwError InvalidStoreInstance v of (e, evs) \<Rightarrow> (Some e, slot, evs))
           | None \<Rightarrow>
               (case build_registry st [] [] (instance_ids els) of
                  Inl (e, evs) \<Rightarrow> (Some e, None, evs)
                | Inr storesObject \<Rightarrow> (None, Some storesObject, []))))"

text \<open>
  \<^verbatim>\<open>subscribeToStores\<close> of the wrapped component (lines 101-114), for the component \<open>this\<close>.
  The loop over \<^verbatim>\<open>storeNames\<close> carries \<^verbatim>\<open>initialState\<close>; reading \<^verbatim>\<open>.stores\<close> of an absent
  registry is a TypeError, and so is calling \<^verbatim>\<open>hasOwnProperty\<close> when a store of that name
  hides the inherited method.  The result is the error, \<^verbatim>\<open>initialState\<close>, the program's
  state and the output.
\<close>

fun subscribe_each ::
  "jsval \<Rightarrow> jsval list \<Rightarrow> registry \<Rightarrow> app \<Rightarrow> error option \<times> registry \<times> app \<times> event list" where
  "subscribe_each this [] initialState a = (None, initialState, a, [])"
| "subscribe_each this (storeName # rest) initialState a =
     (case storeName of
        VStr x \<Rightarrow>
          (case whitelodge a of
             None \<Rightarrow> (Some TypeError, initialState, a, [])
           | Some stores \<Rightarrow>
               (case map_of stores ''hasOwnProperty'' of
                  Some i \<Rightarrow> (Some TypeError, initialState, a, [])
                | None \<Rightarrow>
                    (case map_of stores x of
                       None \<Rightarrow>
                         (Some (NoSuchStore x), initialState, a, [ConsoleErrorRegistry (whitelodge a)])
                     | Some i \<Rightarrow>
                         (case subscribe this (objects a) (store_of a i) of
                            (Some e, s', evs) \<Rightarrow>
                              (Some e, put x i initialState, a\<lparr>store_of := (store_of a)(i := s')\<rparr>, evs)
                          | (None, s', evs) \<Rightarrow>
                              (case subscribe_each this rest (put x i initialState)
                                      (a\<lparr>store_of := (store_of a)(i := s')\<rparr>) of
                                 (e, st, a', evs') \<Rightarrow> (e, st, a', evs @ evs'))))))
      | _ \<Rightarrow>
          (case throwError StoreNameNotAString storeName of
             (e, evs) \<Rightarrow> (Some e, initialState, a, evs)))"

definition subscribeToStores ::
  "jsval \<Rightarrow> jsval \<Rightarrow> app \<Rightarrow> error option \<times> registry \<times> app \<times> event list" where
  "subscribeToStores this storeNames a =
     (case storeNames of
        VRef r \<Rightarrow>
          (if r < length (objects a)
           then (case objects a ! r of
                   Arr names \<Rightarrow> subscribe_each this names [] a
                 | Obj ps \<Rightarrow>
                     (case throwError StoreNamesNotAnArray storeNames of
                        (e, evs) \<Rightarrow> (Some e, [], a, evs)))
           else (case throwError StoreNamesNotAnArray storeNames of
                   (e, evs) \<Rightarrow> (Some e, [], a, evs)))
      | _ \<Rightarrow>
          (case throwError StoreNamesNotAnArray storeNames of
             (e, evs) \<Rightarrow> (Some e, [], a, evs)))"

text \<open>
  \<^verbatim>\<open>componentWillUnmount\<close> (lines 116-120):
  \<^verbatim>\<open>root[rootObjectName].stores.forEach(store => { store.unsubscribe(this) })\<close>.
  \<^verbatim>\<open>stores\<close> is the plain object of the registry, not an array.  Its \<^verbatim>\<open>forEach\<close> is
  \<^verbatim>\<open>undefined\<close>, or the Store instance of a store named \<^verbatim>\<open>forEach\<close>; calling either is a
  TypeError, and so is reading \<^verbatim>\<open>.stores\<close> of an absent registry.  The arrow function with
  the call of \<^verbatim>\<open>unsubscribe\<close> is never run.
\<close>

definition componentWillUnmount :: "jsval \<Rightarrow> app \<Rightarrow> error option \<times> app" where
  "componentWillUnmount this a =
     (case whitelodge a of
        None \<Rightarrow> (Some TypeError, a)
      | Some stores \<Rightarrow>
          (case map_of stores ''forEach'' of
             None \<Rightarrow> (Some TypeError, a)
           | Some i \<Rightarrow> (Some TypeError, a)))"

text \<open>Whether \<^verbatim>\<open>isFunction(v.setState)\<close> holds, and whether an integer is meant by a number.\<close>

definition has_callable_setState :: "heap \<Rightarrow> jsval \<Rightarrow> bool" where
  "has_callable_setState h v = (case get_setState h v of Some f \<Rightarrow> isFunction f | None \<Rightarrow> False)"

fun is_integer :: "jsnum \<Rightarrow> bool" where
  "is_integer (Fin r) = (of_int \<lfloor>r\<rfloor> = r)"
| "is_integer n = False"

text \<open>
  A running example: \<^verbatim>\<open>new Store('counter', {count: 0})\<close> in a heap that holds the object
  \<^verbatim>\<open>{count: 0}\<close>, two components, the first with a \<^verbatim>\<open>setState\<close> that throws, and an object
  \<^verbatim>\<open>{user: o}\<close> that refers to the first object.  The constructor puts the state object at
  address 4 and the copy of the empty state at address 9.
\<close>

definition example_heap :: heap where
  "example_heap =
     [Obj [(''count'', VNum (Fin 0))],
      Obj [(''setState'', VFun 0 Throws)],
      Obj [(''setState'', VFun 1 Returns)],
      Obj [(''user'', VRef 0)]]"

definition example_store :: store where
  "example_store =
     \<lparr>name = ''counter'', state = 4, previousStates = [VRef 9], subscribers = [],
      logStateToConsole = False, numberOfPreviousStatesToKeep = Fin 15\<rparr>"

definition example_heap' :: heap where
  "example_heap' =
     [Obj [(''count'', VNum (Fin 0))],
      Obj [(''setState'', VFun 0 Throws)],
      Obj [(''setState'', VFun 1 Returns)],
      Obj [(''user'', VRef 0)],
      Obj [(''count'', VNum (Fin 0))],
      Obj [(''count'', VNum (Fin 0))],
      Obj [(''setState'', VFun 0 Throws)],
      Obj [(''setState'', VFun 1 Returns)],
      Obj [(''user'', VRef 5)],
      Obj []]"

text \<open>The first three checks of \<^verbatim>\<open>validateArguments\<close> pass (defaults applied).\<close>

definition first_three_valid :: "heap \<Rightarrow> jsval \<Rightarrow> jsval \<Rightarrow> jsval \<Rightarrow> bool" where
  "first_three_valid h a_name a_init a_log =
     ((case a_name of VStr x \<Rightarrow> x \<noteq> [] | _ \<Rightarrow> False)
      \<and> (a_init = VUndefined \<or> isObject h a_init)
      \<and> (case a_log of VUndefined \<Rightarrow> True | VBool b \<Rightarrow> True | _ \<Rightarrow> False))"

text \<open>A coercion of strings and objects for the examples: none of them is a number.\<close>

definition example_ext :: "jsval \<Rightarrow> jsnum option" where
  "example_ext v = Some NaN"

text \<open>
  The example heap with one more object, at address 4, whose \<^verbatim>\<open>valueOf\<close> throws; and the
  coercion there: converting that object calls its \<^verbatim>\<open>valueOf\<close> and throws, every other
  string and object of the example is no number.
\<close>

definition example_heap_valueOf :: heap where
  "example_heap_valueOf = example_heap @ [Obj [(''valueOf'', VFun 2 Throws)]]"

definition example_ext_valueOf :: "jsval \<Rightarrow> jsnum option" where
  "example_ext_valueOf v = (if v = VRef 4 then None else Some NaN)"

text \<open>
  For the invariants: the values an object holds, a value that is no reference to an address
  outside \<open>[lo, hi)\<close>, and a range of addresses whose objects refer only into the range.
\<close>

fun obj_vals :: "jsobj \<Rightarrow> jsval list" where
  "obj_vals (Obj ps) = map snd ps"
| "obj_vals (Arr vs) = vs"

definition in_region :: "nat \<Rightarrow> nat \<Rightarrow> jsval \<Rightarrow> bool" where
  "in_region lo hi v = (case v of VRef a \<Rightarrow> lo \<le> a \<and> a < hi | _ \<Rightarrow> True)"

definition closed_region :: "heap \<Rightarrow> nat \<Rightarrow> nat \<Rightarrow> bool" where
  "closed_region h lo hi =
     (hi \<le> length h \<and> (\<forall>a. lo \<le> a \<and> a < hi \<longrightarrow> (\<forall>v \<in> set (obj_vals (h ! a)). in_region lo hi v)))"

text \<open>\<^verbatim>\<open>numberOfPreviousStatesToKeep\<close> as \<^verbatim>\<open>validateArguments\<close> lets it through.\<close>

definition cap_ok :: "jsnum \<Rightarrow> bool" where
  "cap_ok n = (\<not> isNaN n \<and> \<not> js_lt n (Fin 1))"

text \<open>
  Every recorded snapshot lies in a closed range of addresses above the live state object:
  nothing the snapshot reaches is the state object.
\<close>

definition history_frozen :: "heap \<Rightarrow> store \<Rightarrow> bool" where
  "history_frozen h s =
     (\<forall>p \<in> set (previousStates s).
        \<exists>lo hi a. state s < lo \<and> closed_region h lo hi \<and> p = VRef a \<and> lo \<le> a \<and> a < hi)"

definition store_inv :: "heap \<times> store \<Rightarrow> bool" where
  "store_inv w =
     (case w of (h, s) \<Rightarrow>
        wf_heap h \<and> isObject h (VRef (state s)) \<and> cap_ok (numberOfPreviousStatesToKeep s)
        \<and> within_cap (length (previousStates s)) (numberOfPreviousStatesToKeep s)
        \<and> history_frozen h s)"

text \<open>
  Whether a call of \<^verbatim>\<open>sub.setState\<close> returns, in a given heap, and leaves the store alone;
  and whether a called function throws in the end.
\<close>

definition callback_returns :: "heap \<Rightarrow> jsval \<Rightarrow> bool" where
  "callback_returns h sub = (case get_setState h sub of Some (VFun i Returns) \<Rightarrow> True | _ \<Rightarrow> False)"

fun throws :: "outcome \<Rightarrow> bool" where
  "throws Returns = False"
| "throws Throws = True"
| "throws (Unsubscribing a b) = throws b"

text \<open>
  The store \<open>s'\<close> is the store \<open>s\<close> but for subscribers that have been removed: what the
  callbacks of a notification can do to it.
\<close>

definition only_unsubscribed :: "store \<Rightarrow> store \<Rightarrow> bool" where
  "only_unsubscribed s s' =
     (s' = s\<lparr>subscribers := subscribers s'\<rparr> \<and> subseq (subscribers s') (subscribers s))"

text \<open>The own properties of the \<^verbatim>\<open>initialState\<close> argument; none when it is left out.\<close>

definition initial_props :: "heap \<Rightarrow> jsval \<Rightarrow> (string \<times> jsval) list" where
  "initial_props h a_init = (case a_init of VRef src \<Rightarrow> props_of (h ! src) | _ \<Rightarrow> [])"

text \<open>The running example with both components subscribed, the throwing one first.\<close>

definition example_store_subscribed :: store where
  "example_store_subscribed = example_store\<lparr>subscribers := [VRef 1, VRef 2]\<rparr>"

text \<open>The running example with only the second component subscribed.\<close>

definition example_store_listening :: store where
  "example_store_listening = example_store\<lparr>subscribers := [VRef 2]\<rparr>"

text \<open>
  Two stores for the examples, both named \<^verbatim>\<open>counter\<close>; and a program with the first of them
  in the registry, whose heap holds the array \<^verbatim>\<open>['counter']\<close> at address 10.
\<close>

definition example_stores :: "nat \<Rightarrow> store" where
  "example_stores i = (if i = 0 then example_store else example_store\<lparr>logStateToConsole := True\<rparr>)"

definition example_app :: app where
  "example_app =
     \<lparr>objects = example_heap' @ [Arr [VStr ''counter'']],
      store_of = example_stores,
      whitelodge = Some [(''counter'', 0)]\<rparr>"

text \<open>The example program after the component at address 2 has attached to \<^verbatim>\<open>counter\<close>.\<close>

definition example_app_attached :: app where
  "example_app_attached = example_app\<lparr>store_of := example_stores(0 := example_store_listening)\<rparr>"

text \<open>
  The running example with a first component that leaves when it is told: its \<^verbatim>\<open>setState\<close>
  calls \<^verbatim>\<open>unsubscribe\<close> for the component itself, which is at address 1, and returns.  The
  heap before the construction of the store, and after it.
\<close>

definition example_heap_leaving :: heap where
  "example_heap_leaving =
     [Obj [(''count'', VNum (Fin 0))],
      Obj [(''setState'', VFun 0 (Unsubscribing 1 Returns))],
      Obj [(''setState'', VFun 1 Returns)],
      Obj [(''user'', VRef 0)]]"

definition example_heap_leaving' :: heap where
  "example_heap_leaving' =
     [Obj [(''count'', VNum (Fin 0))],
      Obj [(''setState'', VFun 0 (Unsubscribing 1 Returns))],
      Obj [(''setState'', VFun 1 Returns)],
      Obj [(''user'', VRef 0)],
      Obj [(''count'', VNum (Fin 0))],
      Obj [(''count'', VNum (Fin 0))],
      Obj [(''setState'', VFun 0 (Unsubscribing 1 Returns))],
      Obj [(''setState'', VFun 1 Returns)],
      Obj [(''user'', VRef 5)],
      Obj []]"

text \<open>
  An example in which the state object is a subscriber.  The heap holds \<^verbatim>\<open>a = {setState: f}\<close>
  and \<^verbatim>\<open>n = {setState: 0}\<close>.  After \<^verbatim>\<open>store = new Store('counter', a)\<close> the state object, at
  address 2, has the \<^verbatim>\<open>setState\<close> of \<open>a\<close>; then come \<^verbatim>\<open>store.subscribe(store.state)\<close> and
  \<^verbatim>\<open>store.subscribe(a)\<close>; and last the heap and the store as \<^verbatim>\<open>store.setStoreState(n)\<close> leaves
  them, the \<^verbatim>\<open>setState\<close> of the state object being the number 0.
\<close>

definition example_heap_self :: heap where
  "example_heap_self =
     [Obj [(''setState'', VFun 1 Returns)],
      Obj [(''setState'', VNum (Fin 0))]]"

definition example_heap_self' :: heap where
  "example_heap_self' =
     [Obj [(''setState'', VFun 1 Returns)],
      Obj [(''setState'', VNum (Fin 0))],
      Obj [(''setState'', VFun 1 Returns)],
      Obj [(''setState'', VFun 1 Returns)],
      Obj [(''setState'', VNum (Fin 0))],
      Obj []]"

definition example_store_self :: store where
  "example_store_self =
     \<lparr>name = ''counter'', state = 2, previousStates = [VRef 5], subscribers = [],
      logStateToConsole = False, numberOfPreviousStatesToKeep = Fin 15\<rparr>"

definition example_store_self_subscribed :: store where
  "example_store_self_subscribed = example_store_self\<lparr>subscribers := [VRef 2, VRef 0]\<rparr>"

definition example_heap_self'' :: heap where
  "example_heap_self'' =
     [Obj [(''setState'', VFun 1 Returns)],
      Obj [(''setState'', VNum (Fin 0))],
      Obj [(''setState'', VNum (Fin 0))],
      Obj [(''setState'', VFun 1 Returns)],
      Obj [(''setState'', VNum (Fin 0))],
      Obj [],
      Obj [(''setState'', VFun 1 Returns)],
      Obj [(''setState'', VNum (Fin 0))],
      Obj [(''setState'', VFun 1 Returns)],
      Obj [(''setState'', VFun 1 Returns)],
      Obj [(''setState'', VNum (Fin 0))],
      Obj []]"

definition example_store_self_broken :: store where
  "example_store_self_broken =
     \<lparr>name = ''counter'', state = 2, previousStates = [VRef 8, VRef 5],
      subscribers = [VRef 2, VRef 0],
      logStateToConsole = False, numberOfPreviousStatesToKeep = Fin 15\<rparr>"

section \<open>Basic facts about the operations\<close>

lemma addCurrentStateToPreviousStates_eq:
  "addCurrentStateToPreviousStates h s =
     (h @ map (shift_obj (length h)) h,
      s\<lparr>previousStates :=
          (if js_gt (Fin (of_nat (Suc (length (previousStates s))))) (numberOfPreviousStatesToKeep s)
           then slice0 (VRef (state s + length h) # previousStates s) (numberOfPreviousStatesToKeep s)
           else VRef (state s + length h) # previousStates s)\<rparr>)"
  by (simp add: addCurrentStateToPreviousStates_def clone_def Let_def)

lemma setStoreState_invalid:
  "\<not> isObject h v \<Longrightarrow>
     setStoreState v h s = (Some StateMustBeObject, h, s, snd (throwError StateMustBeObject v))"
  by (simp add: setStoreState_def validateNewState_def throwError_def Let_def)

lemma isObject_ref: "isObject h v \<Longrightarrow> \<exists>a ps. v = VRef a \<and> a < length h \<and> h ! a = Obj ps"
  by (cases v) (auto simp: isObject_def split: jsobj.splits)

lemma subseq_remove_first: "subseq (remove_first u xs) xs"
  by (induction xs) auto

lemma only_unsubscribed_refl: "only_unsubscribed s s"
  by (simp add: only_unsubscribed_def)

lemma only_unsubscribed_trans:
  assumes "only_unsubscribed s s1" and "only_unsubscribed s1 s2"
  shows "only_unsubscribed s s2"
proof -
  from assms have "subseq (subscribers s2) (subscribers s)"
    unfolding only_unsubscribed_def using subseq_order.trans by blast
  moreover from assms have "s2 = s\<lparr>subscribers := subscribers s2\<rparr>"
    unfolding only_unsubscribed_def by (cases s; cases s1; cases s2) simp
  ultimately show ?thesis by (simp add: only_unsubscribed_def)
qed

lemma only_unsubscribed_fields:
  assumes "only_unsubscribed s s'"
  shows "name s' = name s" and "state s' = state s" and "previousStates s' = previousStates s"
    and "logStateToConsole s' = logStateToConsole s"
    and "numberOfPreviousStatesToKeep s' = numberOfPreviousStatesToKeep s"
    and "subseq (subscribers s') (subscribers s)"
  using assms unfolding only_unsubscribed_def by (cases s; cases s'; simp)+

lemma only_unsubscribed_same:
  assumes "only_unsubscribed s s'" and "subscribers s' = subscribers s"
  shows "s' = s"
  using assms unfolding only_unsubscribed_def by (cases s; cases s') simp

lemma unsubscribe_only: "only_unsubscribed s (unsubscribe u s)"
  by (simp add: only_unsubscribed_def unsubscribe_def subseq_remove_first)

lemma react_only: "react b s = (t, s') \<Longrightarrow> only_unsubscribed s s'"
proof (induction b arbitrary: s)
  case Returns
  then show ?case by (simp add: only_unsubscribed_refl)
next
  case Throws
  then show ?case by (simp add: only_unsubscribed_refl)
next
  case (Unsubscribing a b)
  from Unsubscribing.prems have "react b (unsubscribe (VRef a) s) = (t, s')" by simp
  from Unsubscribing.IH[OF this] unsubscribe_only[of s "VRef a"] show ?case
    by (rule only_unsubscribed_trans[rotated])
qed

lemma react_throws: "fst (react b s) = throws b"
  by (induction b arbitrary: s) simp_all

lemma call_setState_cases:
  "call_setState h s sub =
     (case get_setState h sub of
        Some (VFun i b) \<Rightarrow>
          (if throws b then Some (CallbackThrew i) else None, snd (react b s),
           [SetStateCall sub (name s) s h])
      | _ \<Rightarrow> (Some TypeError, s, []))"
proof (cases "get_setState h sub")
  case None
  then show ?thesis by (simp add: call_setState_def)
next
  case (Some f)
  show ?thesis
  proof (cases f)
    case (VFun i b)
    obtain t s1 where r: "react b s = (t, s1)" by (meson surj_pair)
    with react_throws[of b s] have "t = throws b" by simp
    with r Some VFun show ?thesis by (simp add: call_setState_def)
  qed (simp_all add: Some call_setState_def)
qed

lemma has_callable_setState_iff:
  "has_callable_setState h sub \<longleftrightarrow> (\<exists>i b. get_setState h sub = Some (VFun i b))"
  by (auto simp: has_callable_setState_def isFunction_def split: option.splits jsval.splits)

lemma call_setState_not_callable:
  "\<not> has_callable_setState h sub \<Longrightarrow> call_setState h s sub = (Some TypeError, s, [])"
  by (auto simp: call_setState_cases has_callable_setState_iff split: option.splits jsval.splits)

lemma call_setState_callable:
  "get_setState h sub = Some (VFun i b) \<Longrightarrow>
     call_setState h s sub =
       (if throws b then Some (CallbackThrew i) else None, snd (react b s),
        [SetStateCall sub (name s) s h])"
  by (simp add: call_setState_cases)

lemma call_setState_returns:
  "callback_returns h sub \<Longrightarrow> call_setState h s sub = (None, s, [SetStateCall sub (name s) s h])"
  by (auto simp: call_setState_cases callback_returns_def split: option.splits jsval.splits outcome.splits)

lemma call_setState_only:
  assumes "call_setState h s sub = (e, s', evs)"
  shows "only_unsubscribed s s'"
proof (cases "has_callable_setState h sub")
  case False
  with assms show ?thesis by (simp add: call_setState_not_callable only_unsubscribed_refl)
next
  case True
  then obtain i b where g: "get_setState h sub = Some (VFun i b)"
    by (auto simp: has_callable_setState_iff)
  with assms have "s' = snd (react b s)" by (simp add: call_setState_callable)
  then show ?thesis using react_only[of b s "fst (react b s)" s'] by simp
qed

lemma notify_loop_only:
  "notify_loop n k h s = (e, s', evs) \<Longrightarrow> only_unsubscribed s s'"
proof (induction n arbitrary: k s e s' evs)
  case 0
  then show ?case by (simp add: only_unsubscribed_refl)
next
  case (Suc n)
  show ?case
  proof (cases "k < length (subscribers s)")
    case False
    with Suc.prems have "notify_loop n (Suc k) h s = (e, s', evs)" by simp
    then show ?thesis by (rule Suc.IH)
  next
    case True
    obtain e1 s1 evs1 where c: "call_setState h s (subscribers s ! k) = (e1, s1, evs1)"
      by (metis prod_cases3)
    note o1 = call_setState_only[OF c]
    show ?thesis
    proof (cases e1)
      case (Some err)
      with True c Suc.prems have "s' = s1" by simp
      with o1 show ?thesis by simp
    next
      case None
      obtain e2 s2 evs2 where l: "notify_loop n (Suc k) h s1 = (e2, s2, evs2)"
        by (metis prod_cases3)
      with True c None Suc.prems have "s' = s2" by simp
      with only_unsubscribed_trans[OF o1 Suc.IH[OF l]] show ?thesis by simp
    qed
  qed
qed

lemma notify_only: "notify h s = (e, s', evs) \<Longrightarrow> only_unsubscribed s s'"
  unfolding notify_def by (rule notify_loop_only)

lemma notify_no_subscribers: "subscribers s = [] \<Longrightarrow> notify h s = (None, s, [])"
  by (simp add: notify_def)

lemma setStoreState_valid:
  assumes "isObject h (VRef src)"
    and "addCurrentStateToPreviousStates h s = (h1, s1)"
    and "notify (Object_assign h1 (state s1) src) s1 = (e, s2, evs)"
  shows "setStoreState (VRef src) h s =
           (e, Object_assign h1 (state s1) src, s2,
            evs @ (if e = None then doLogStateToConsole s2 else []))"
  using assms by (cases e) (simp_all add: setStoreState_def validateNewState_def Let_def)

lemma setStoreState_fields:
  assumes "setStoreState v h s = (e, h', s', evs)"
  shows "name s' = name s \<and> state s' = state s \<and> subseq (subscribers s') (subscribers s)
       \<and> logStateToConsole s' = logStateToConsole s
       \<and> numberOfPreviousStatesToKeep s' = numberOfPreviousStatesToKeep s"
proof (cases "isObject h v")
  case False
  with assms show ?thesis by (simp add: setStoreState_invalid)
next
  case True
  then obtain src where v: "v = VRef src" using isObject_ref by blast
  define h1 where "h1 = fst (addCurrentStateToPreviousStates h s)"
  define s1 where "s1 = snd (addCurrentStateToPreviousStates h s)"
  have a: "addCurrentStateToPreviousStates h s = (h1, s1)" by (simp add: h1_def s1_def)
  obtain e1 s2 evs1 where n: "notify (Object_assign h1 (state s1) src) s1 = (e1, s2, evs1)"
    by (metis prod_cases3)
  have "s' = s2" using setStoreState_valid[OF True[unfolded v] a n] assms v by simp
  with only_unsubscribed_fields[OF notify_only[OF n]] show ?thesis
    by (simp add: s1_def addCurrentStateToPreviousStates_eq)
qed

lemma get_setState_callable_ref: "has_callable_setState h v \<Longrightarrow> \<exists>a. v = VRef a"
  by (cases v) (auto simp: has_callable_setState_def get_setState_def isFunction_def)

lemma subscribe_cases:
  "subscribe v h s =
     (if get_setState h v = None then (Some TypeError, s, [])
      else if \<not> has_callable_setState h v
      then (Some SubscriberWithoutSetState, s, snd (throwError SubscriberWithoutSetState v))
      else if \<exists>sub \<in> set (subscribers s). strict_eq sub v
      then (Some (AlreadySubscribed (name s)), s, snd (throwError (AlreadySubscribed (name s)) v))
      else (None, s\<lparr>subscribers := subscribers s @ [v]\<rparr>, []))"
  by (auto simp: subscribe_def has_callable_setState_def throwError_def list_ex_iff Let_def
           split: option.splits)

lemma subscribe_distinct:
  assumes "distinct (subscribers s)"
  shows "distinct (subscribers (fst (snd (subscribe v h s))))"
proof (cases "has_callable_setState h v \<and> \<not> (\<exists>sub \<in> set (subscribers s). strict_eq sub v)")
  case True
  then obtain a where "v = VRef a" using get_setState_callable_ref by blast
  with True have "v \<notin> set (subscribers s)" by (auto simp: strict_eq_def)
  with True assms show ?thesis
    by (auto simp: subscribe_cases has_callable_setState_def)
next
  case False
  with assms show ?thesis by (auto simp: subscribe_cases)
qed

lemma set_remove_first: "set (remove_first u xs) \<subseteq> set xs"
  by (induction xs) auto

lemma distinct_remove_first: "distinct xs \<Longrightarrow> distinct (remove_first u xs)"
proof (induction xs)
  case Nil
  then show ?case by simp
next
  case (Cons x xs)
  then show ?case using set_remove_first[of u xs] by auto
qed

lemma Store_constructor_subscribers:
  assumes "Store_constructor ext a_name a_init a_log a_n h = (Inr s, h', evs)"
  shows "subscribers s = []"
proof -
  from assms obtain h0 v0 s0 e where
    "setStoreState v0 h0 s0 = (e, h', s, evs)" and "subscribers s0 = []"
    by (auto simp: Store_constructor_def Let_def split: if_splits option.splits prod.splits)
  then show ?thesis using setStoreState_fields by fastforce
qed

lemma distinct_subseq: "subseq xs ys \<Longrightarrow> distinct ys \<Longrightarrow> distinct xs"
  using subseqs_distinctD[of xs ys] by simp

lemma perform_distinct:
  assumes "distinct (subscribers (snd w))"
  shows "distinct (subscribers (snd (perform a w)))"
proof (cases w)
  case (Pair h s)
  show ?thesis
  proof (cases a)
    case (Allocate objs)
    with Pair assms show ?thesis by simp
  next
    case (SetStoreState v)
    obtain e h' s' evs where r: "setStoreState v h s = (e, h', s', evs)"
      by (metis prod_cases4)
    from setStoreState_fields[OF r] have "subseq (subscribers s') (subscribers s)" by simp
    with Pair assms have "distinct (subscribers s')" using distinct_subseq by auto
    with r Pair SetStoreState show ?thesis by simp
  next
    case (Subscribe v)
    with Pair assms subscribe_distinct[of s v h] show ?thesis
      by (auto split: prod.splits)
  next
    case (Unsubscribe v)
    with Pair assms show ?thesis by (simp add: unsubscribe_def distinct_remove_first)
  qed
qed

lemma reachable_distinct: "reachable w \<Longrightarrow> distinct (subscribers (snd w))"
proof (induction rule: reachable.induct)
  case (constructed h a_init ext a_name a_log a_n s h' evs)
  then show ?case by (simp add: Store_constructor_subscribers)
next
  case (performed w a)
  then show ?case by (simp add: perform_distinct)
qed

lemma wf_example_heap: "wf_heap example_heap"
  by (simp add: wf_heap_def example_heap_def)

lemma example_constructed:
  "Store_constructor ext (VStr ''counter'') (VRef 0) VUndefined VUndefined example_heap
     = (Inr example_store, example_heap', [])"
  by (simp add: Store_constructor_def validateArguments_def validateNewState_def isObject_def
      isNaN_def setStoreState_def addCurrentStateToPreviousStates_def clone_def notify_def
      Object_assign_def js_gt_def doLogStateToConsole_def example_heap_def example_store_def
      example_heap'_def)

lemma reachable_example: "reachable (example_heap', example_store)"
  by (rule reachable.constructed[OF wf_example_heap _ example_constructed])
     (simp add: example_heap_def)

section \<open>Heaps: what a reference denotes is stable\<close>

lemma view_Suc_cong:
  assumes "a < length h" and "a < length h'" and "h' ! a = h ! a"
    and "\<And>v. v \<in> set (obj_vals (h ! a)) \<Longrightarrow> view d h' v = view d h v"
  shows "view (Suc d) h' (VRef a) = view (Suc d) h (VRef a)"
proof (cases "h ! a")
  case (Obj ps)
  with assms(4) have "\<And>k v. (k, v) \<in> set ps \<Longrightarrow> view d h' v = view d h v"
    by force
  then have "map (\<lambda>(k, v). (k, view d h' v)) ps = map (\<lambda>(k, v). (k, view d h v)) ps"
    by (intro map_cong) auto
  with assms(1-3) Obj show ?thesis by simp
next
  case (Arr vs)
  with assms(4) have "map (view d h') vs = map (view d h) vs"
    by (intro map_cong) auto
  with assms(1-3) Arr show ?thesis by simp
qed

lemma view_region:
  assumes "closed_region h lo hi" and "hi \<le> length h'"
    and "\<And>a. lo \<le> a \<Longrightarrow> a < hi \<Longrightarrow> h' ! a = h ! a"
  shows "in_region lo hi v \<Longrightarrow> view d h' v = view d h v"
proof (induction d arbitrary: v)
  case 0
  then show ?case by (cases v) simp_all
next
  case (Suc d)
  show ?case
  proof (cases v)
    case (VRef a)
    with Suc.prems have a: "lo \<le> a" "a < hi" by (simp_all add: in_region_def)
    with assms(1) have len: "a < length h" and
      vals: "\<And>x. x \<in> set (obj_vals (h ! a)) \<Longrightarrow> in_region lo hi x"
      by (auto simp: closed_region_def)
    from a assms(2) have len': "a < length h'" by simp
    show ?thesis
      unfolding VRef
      by (rule view_Suc_cong[OF len len' assms(3)[OF a]]) (rule Suc.IH[OF vals])
  qed simp_all
qed

lemma obj_ok_vals: "obj_ok n ob \<Longrightarrow> v \<in> set (obj_vals ob) \<Longrightarrow> val_ok n v"
  by (cases ob) (auto simp: list_all_iff)

lemma val_ok_in_region: "val_ok n v \<longleftrightarrow> in_region 0 n v"
  by (cases v) (simp_all add: in_region_def)

lemma wf_heap_closed: "wf_heap h \<Longrightarrow> closed_region h 0 (length h)"
  by (auto simp: wf_heap_def closed_region_def list_all_length val_ok_in_region[symmetric]
           intro: obj_ok_vals)

lemma view_append:
  assumes "wf_heap h" and "val_ok (length h) v"
  shows "view d (h @ ext) v = view d h v"
  by (rule view_region[OF wf_heap_closed[OF assms(1)]])
     (use assms(2) in \<open>simp_all add: nth_append val_ok_in_region\<close>)

lemma view_clone:
  "view d (h @ map (shift_obj (length h)) h) (shift_val (length h) v) = view d h v"
proof (induction d arbitrary: v)
  case 0
  then show ?case by (cases v) simp_all
next
  case (Suc d)
  show ?case
  proof (cases v)
    case (VRef a)
    show ?thesis
    proof (cases "a < length h")
      case True
      then have nth: "(h @ map (shift_obj (length h)) h) ! (a + length h) = shift_obj (length h) (h ! a)"
        by (simp add: nth_append)
      show ?thesis
      proof (cases "h ! a")
        case (Obj ps)
        have "map ((\<lambda>(k, v). (k, view d (h @ map (shift_obj (length h)) h) v)) \<circ>
                   (\<lambda>(k, v). (k, shift_val (length h) v))) ps
              = map (\<lambda>(k, v). (k, view d h v)) ps"
          by (intro map_cong) (auto simp: Suc.IH)
        with True nth Obj VRef show ?thesis by simp
      next
        case (Arr vs)
        have "map (view d (h @ map (shift_obj (length h)) h) \<circ> shift_val (length h)) vs
              = map (view d h) vs"
          by (intro map_cong) (auto simp: Suc.IH)
        with True nth Arr VRef show ?thesis by simp
      qed
    next
      case False
      with VRef show ?thesis by simp
    qed
  qed simp_all
qed

lemma put_keys: "fst ` set (put k v ps) = insert k (fst ` set ps)"
  by (induction ps) force+

lemma put_distinct: "distinct (map fst ps) \<Longrightarrow> distinct (map fst (put k v ps))"
proof (induction ps)
  case Nil
  then show ?case by simp
next
  case (Cons p ps)
  then show ?case using put_keys[of k v ps] by (cases p) auto
qed

lemma put_vals: "set (map snd (put k v ps)) \<subseteq> insert v (set (map snd ps))"
proof (induction ps)
  case Nil
  then show ?case by simp
next
  case (Cons p ps)
  then show ?case by (cases p) (cases "fst p = k"; auto)
qed

lemma map_of_put: "map_of (put k v ps) = (map_of ps)(k \<mapsto> v)"
  by (induction ps) auto

lemma assign_props_distinct: "distinct (map fst tp) \<Longrightarrow> distinct (map fst (assign_props tp sp))"
  by (induction tp sp rule: assign_props.induct) (simp_all add: put_distinct)

lemma assign_props_vals:
  "set (map snd (assign_props tp sp)) \<subseteq> set (map snd tp) \<union> set (map snd sp)"
proof (induction tp sp rule: assign_props.induct)
  case (1 tp)
  then show ?case by simp
next
  case (2 tp k v sp)
  then have "set (map snd (assign_props (put k v tp) sp))
      \<subseteq> set (map snd (put k v tp)) \<union> set (map snd sp)" by simp
  also have "\<dots> \<subseteq> insert v (set (map snd tp)) \<union> set (map snd sp)"
    using put_vals[of k v tp] by blast
  finally show ?case by auto
qed

lemma map_of_assign_props:
  "distinct (map fst sp) \<Longrightarrow> map_of (assign_props tp sp) = map_of tp ++ map_of sp"
proof (induction tp sp rule: assign_props.induct)
  case (1 tp)
  then show ?case by simp
next
  case (2 tp k v sp)
  then have k: "k \<notin> dom (map_of sp)" by (simp add: dom_map_of_conv_image_fst)
  have "map_of (assign_props tp ((k, v) # sp)) = map_of (put k v tp) ++ map_of sp"
    using 2 by simp
  also have "\<dots> = (map_of tp)(k \<mapsto> v) ++ map_of sp"
    by (simp only: map_of_put)
  also have "\<dots> = (map_of tp ++ map_of sp)(k \<mapsto> v)"
    using k by (rule map_add_upd_left)
  also have "\<dots> = map_of tp ++ (map_of sp)(k \<mapsto> v)"
    by (rule map_add_upd[symmetric])
  finally show ?case by (simp only: map_of.simps fst_conv snd_conv)
qed

lemma put_same: "map_of ps k = Some v \<Longrightarrow> put k v ps = ps"
  by (induction ps) (auto split: if_splits)

lemma assign_props_same:
  "(\<And>k v. (k, v) \<in> set sp \<Longrightarrow> map_of tp k = Some v) \<Longrightarrow> assign_props tp sp = tp"
  by (induction tp sp rule: assign_props.induct) (simp_all add: put_same)

lemma put_fresh: "k \<notin> fst ` set ps \<Longrightarrow> put k v ps = ps @ [(k, v)]"
  by (induction ps) auto

lemma assign_props_empty_aux:
  "distinct (map fst (tp @ sp)) \<Longrightarrow> assign_props tp sp = tp @ sp"
proof (induction tp sp rule: assign_props.induct)
  case (1 tp)
  then show ?case by simp
next
  case (2 tp k v sp)
  then have "put k v tp = tp @ [(k, v)]" by (intro put_fresh) auto
  with 2 show ?case by simp
qed

lemma assign_props_empty: "distinct (map fst sp) \<Longrightarrow> assign_props [] sp = sp"
  using assign_props_empty_aux[of "[]" sp] by simp

lemma val_ok_mono: "val_ok n v \<Longrightarrow> n \<le> m \<Longrightarrow> val_ok m v"
  by (cases v) simp_all

lemma obj_ok_mono: "obj_ok n ob \<Longrightarrow> n \<le> m \<Longrightarrow> obj_ok m ob"
  by (cases ob) (auto simp: list_all_iff intro: val_ok_mono)

lemma val_ok_shift: "val_ok n v \<Longrightarrow> val_ok (n + n) (shift_val n v)"
  by (cases v) simp_all

lemma fst_comp_shift: "fst \<circ> (\<lambda>(k, v). (k, shift_val n v)) = fst"
  by (auto simp: fun_eq_iff)

lemma obj_ok_shift: "obj_ok n ob \<Longrightarrow> obj_ok (n + n) (shift_obj n ob)"
proof (cases ob)
  case (Obj ps)
  assume "obj_ok n ob"
  with Obj have d: "distinct (map fst ps)" and v: "\<And>k x. (k, x) \<in> set ps \<Longrightarrow> val_ok n x"
    by (auto simp: list_all_iff)
  have "\<And>k x. (k, x) \<in> set ps \<Longrightarrow> val_ok (n + n) (shift_val n x)"
    using v val_ok_shift by blast
  then have "list_all (val_ok (n + n)) (map snd (map (\<lambda>(k, v). (k, shift_val n v)) ps))"
    by (auto simp: list_all_iff)
  with d Obj show ?thesis by (simp add: fst_comp_shift)
next
  case (Arr vs)
  assume "obj_ok n ob"
  with Arr show ?thesis by (auto simp: list_all_iff intro: val_ok_shift)
qed

lemma wf_heap_clone:
  assumes "wf_heap h"
  shows "wf_heap (h @ map (shift_obj (length h)) h)"
proof -
  from assms have a: "\<And>ob. ob \<in> set h \<Longrightarrow> obj_ok (length h) ob"
    by (simp add: wf_heap_def list_all_iff)
  have 1: "\<And>ob. ob \<in> set h \<Longrightarrow> obj_ok (length h + length h) ob"
    using a obj_ok_mono by (meson le_add1)
  have 2: "\<And>ob. ob \<in> set h \<Longrightarrow> obj_ok (length h + length h) (shift_obj (length h) ob)"
    using a obj_ok_shift by blast
  show ?thesis using 1 2 by (auto simp: wf_heap_def list_all_iff)
qed

lemma wf_heap_update:
  assumes "wf_heap h" and "obj_ok (length h) ob"
  shows "wf_heap (h[a := ob])"
proof -
  have "set (h[a := ob]) \<subseteq> insert ob (set h)" by (rule set_update_subset_insert)
  with assms show ?thesis by (auto simp: wf_heap_def list_all_iff)
qed

lemma wf_heap_nth: "wf_heap h \<Longrightarrow> a < length h \<Longrightarrow> obj_ok (length h) (h ! a)"
  by (simp add: wf_heap_def list_all_length)

lemma obj_ok_assign:
  assumes "obj_ok n (Obj tp)" and "obj_ok n (Obj sp)"
  shows "obj_ok n (Obj (assign_props tp sp))"
proof -
  have sub: "set (map snd (assign_props tp sp)) \<subseteq> set (map snd tp) \<union> set (map snd sp)"
    by (rule assign_props_vals)
  from assms have "\<forall>x \<in> set (map snd tp) \<union> set (map snd sp). val_ok n x"
    by (auto simp: list_all_iff)
  with sub have "\<forall>x \<in> set (map snd (assign_props tp sp)). val_ok n x" by blast
  moreover from assms(1) have "distinct (map fst (assign_props tp sp))"
    by (simp add: assign_props_distinct)
  ultimately show ?thesis by (simp add: list_all_iff)
qed

lemma wf_heap_append:
  assumes "wf_heap h" and "list_all (obj_ok (length h + length objs)) objs"
  shows "wf_heap (h @ objs)"
proof -
  from assms(1) have a: "\<And>ob. ob \<in> set h \<Longrightarrow> obj_ok (length h) ob"
    by (simp add: wf_heap_def list_all_iff)
  have "\<And>ob. ob \<in> set h \<Longrightarrow> obj_ok (length h + length objs) ob"
    using a obj_ok_mono by (meson le_add1)
  with assms(2) show ?thesis
    by (auto simp: wf_heap_def list_all_iff)
qed

lemma closed_region_transport:
  assumes "closed_region h lo hi" and "hi \<le> length h'"
    and "\<And>a. lo \<le> a \<Longrightarrow> a < hi \<Longrightarrow> h' ! a = h ! a"
  shows "closed_region h' lo hi"
  using assms by (simp add: closed_region_def)

lemma obj_vals_shift: "obj_vals (shift_obj n ob) = map (shift_val n) (obj_vals ob)"
  by (cases ob) (auto)

lemma in_region_shift: "val_ok n v \<Longrightarrow> in_region n (n + n) (shift_val n v)"
  by (cases v) (simp_all add: in_region_def)

lemma closed_region_clone:
  assumes "wf_heap h"
  shows "closed_region (h @ map (shift_obj (length h)) h) (length h) (length h + length h)"
proof -
  have "in_region (length h) (length h + length h) v"
    if a: "length h \<le> a" "a < length h + length h"
      and v: "v \<in> set (obj_vals ((h @ map (shift_obj (length h)) h) ! a))" for a v
  proof -
    from a have lt: "a - length h < length h" by simp
    from a have "(h @ map (shift_obj (length h)) h) ! a = shift_obj (length h) (h ! (a - length h))"
      by (simp add: nth_append)
    with v obtain x where x: "x \<in> set (obj_vals (h ! (a - length h)))" and vx: "v = shift_val (length h) x"
      by (auto simp: obj_vals_shift)
    from wf_heap_nth[OF assms lt] x have "val_ok (length h) x" by (rule obj_ok_vals)
    with vx show ?thesis by (simp add: in_region_shift)
  qed
  then show ?thesis unfolding closed_region_def by auto
qed

lemma capped_props:
  assumes "cap_ok n" and "ps \<noteq> []"
  defines "qs \<equiv> (if js_gt (Fin (of_nat (length ps))) n then slice0 ps n else ps)"
  shows "qs \<noteq> [] \<and> hd qs = hd ps \<and> prefix qs ps \<and> within_cap (length qs) n"
proof (cases n)
  case NaN
  with assms(1) show ?thesis by (simp add: cap_ok_def isNaN_def)
next
  case PosInf
  then show ?thesis using assms(2) by (simp add: qs_def js_gt_def)
next
  case NegInf
  with assms(1) show ?thesis by (simp add: cap_ok_def)
next
  case (Fin r)
  with assms(1) have r: "1 \<le> r" by (simp add: cap_ok_def)
  show ?thesis
  proof (cases "r < of_nat (length ps)")
    case False
    with Fin assms(2) show ?thesis by (simp add: qs_def js_gt_def)
  next
    case True
    from r have fl: "1 \<le> \<lfloor>r\<rfloor>" by simp
    with r True Fin have q: "qs = take (nat \<lfloor>r\<rfloor>) ps"
      by (simp add: qs_def js_gt_def slice0_def Let_def)
    from fl have pos: "0 < nat \<lfloor>r\<rfloor>" by simp
    have "length qs \<le> nat \<lfloor>r\<rfloor>" unfolding q by simp
    with fl have "int (length qs) \<le> \<lfloor>r\<rfloor>" by linarith
    then have "(of_int (int (length qs)) :: rat) \<le> of_int \<lfloor>r\<rfloor>"
      by (simp only: of_int_le_iff)
    then have "of_nat (length qs) \<le> (of_int \<lfloor>r\<rfloor> :: rat)" by simp
    also have "\<dots> \<le> r" by (rule of_int_floor_le)
    finally have "within_cap (length qs) n" using Fin by simp
    moreover from pos assms(2) have "qs \<noteq> []" "hd qs = hd ps"
      unfolding q by (cases ps; cases "nat \<lfloor>r\<rfloor>"; simp)+
    moreover have "prefix qs ps" unfolding q by (rule take_is_prefix)
    ultimately show ?thesis by simp
  qed
qed

section \<open>Subscribing\<close>

text \<open>
  C6.  For every store and every value \<open>v\<close>, \<^verbatim>\<open>subscribe(v)\<close> throws when \<open>v\<close> has no
  callable \<^verbatim>\<open>setState\<close>, and throws when \<open>v\<close> is already among the subscribers (by \<^verbatim>\<open>===\<close>);
  in both cases the store, its list of subscribers included, is left as it was.  Otherwise
  \<open>v\<close> is appended at the end of the list.  Hence the subscribers of a store never hold the
  same reference twice.
\<close>

theorem subscribe_rejects_or_appends:
  "(\<not> has_callable_setState h v \<longrightarrow> (\<exists>e evs. subscribe v h s = (Some e, s, evs)))
   \<and> ((\<exists>sub \<in> set (subscribers s). strict_eq sub v) \<longrightarrow>
        (\<exists>e evs. subscribe v h s = (Some e, s, evs)))
   \<and> (has_callable_setState h v \<and> (\<forall>sub \<in> set (subscribers s). \<not> strict_eq sub v) \<longrightarrow>
        subscribe v h s = (None, s\<lparr>subscribers := subscribers s @ [v]\<rparr>, []))
   \<and> (reachable (h, s) \<longrightarrow> distinct (subscribers s))"
proof (intro conjI impI)
  assume "\<not> has_callable_setState h v"
  then show "\<exists>e evs. subscribe v h s = (Some e, s, evs)"
    by (simp add: subscribe_cases)
next
  assume "\<exists>sub \<in> set (subscribers s). strict_eq sub v"
  then show "\<exists>e evs. subscribe v h s = (Some e, s, evs)"
    by (simp add: subscribe_cases)
next
  assume "has_callable_setState h v \<and> (\<forall>sub \<in> set (subscribers s). \<not> strict_eq sub v)"
  then show "subscribe v h s = (None, s\<lparr>subscribers := subscribers s @ [v]\<rparr>, [])"
    by (auto simp: subscribe_cases has_callable_setState_def split: option.splits)
next
  assume "reachable (h, s)"
  then show "distinct (subscribers s)"
    using reachable_distinct by fastforce
qed

theorem subscribe_rejects_or_appends_witness:
  "\<not> has_callable_setState example_heap' (VNum (Fin 5))
   \<and> (\<exists>e evs. subscribe (VNum (Fin 5)) example_heap' example_store = (Some e, example_store, evs))
   \<and> (\<exists>sub \<in> set (subscribers (example_store\<lparr>subscribers := [VRef 2]\<rparr>)). strict_eq sub (VRef 2))
   \<and> (\<exists>e evs. subscribe (VRef 2) example_heap' (example_store\<lparr>subscribers := [VRef 2]\<rparr>)
          = (Some e, example_store\<lparr>subscribers := [VRef 2]\<rparr>, evs))
   \<and> has_callable_setState example_heap' (VRef 2)
   \<and> \<not> (\<exists>sub \<in> set (subscribers (example_store\<lparr>subscribers := [VRef 1]\<rparr>)). strict_eq sub (VRef 2))
   \<and> subscribe (VRef 2) example_heap' (example_store\<lparr>subscribers := [VRef 1]\<rparr>)
        = (None, example_store\<lparr>subscribers := [VRef 1, VRef 2]\<rparr>, [])
   \<and> reachable (example_heap', example_store)
   \<and> distinct (subscribers example_store)"
proof -
  have a: "\<not> has_callable_setState example_heap' (VNum (Fin 5))"
    by (simp add: has_callable_setState_def get_setState_def isFunction_def)
  have b: "\<exists>sub \<in> set (subscribers (example_store\<lparr>subscribers := [VRef 2]\<rparr>)). strict_eq sub (VRef 2)"
    by (simp add: strict_eq_def)
  have c: "has_callable_setState example_heap' (VRef 2)"
    by (simp add: has_callable_setState_def get_setState_def isFunction_def example_heap'_def)
  have d: "\<forall>sub \<in> set (subscribers (example_store\<lparr>subscribers := [VRef 1]\<rparr>)). \<not> strict_eq sub (VRef 2)"
    by (simp add: strict_eq_def)
  show ?thesis
    using a b c d reachable_example
      subscribe_rejects_or_appends[of example_heap' "VNum (Fin 5)" example_store]
      subscribe_rejects_or_appends[of example_heap' "VRef 2" "example_store\<lparr>subscribers := [VRef 2]\<rparr>"]
      subscribe_rejects_or_appends[of example_heap' "VRef 2" "example_store\<lparr>subscribers := [VRef 1]\<rparr>"]
    by simp
qed

section \<open>Construction\<close>

lemma isObject_append: "isObject h v \<Longrightarrow> isObject (h @ h') v"
  by (cases v) (auto simp: isObject_def nth_append)

lemma setStoreState_no_subscribers:
  assumes "isObject h v" and "subscribers s = []"
  shows "fst (setStoreState v h s) = None"
proof -
  from assms(1) obtain src where v: "v = VRef src" using isObject_ref by blast
  define h1 where "h1 = fst (addCurrentStateToPreviousStates h s)"
  define s1 where "s1 = snd (addCurrentStateToPreviousStates h s)"
  have a: "addCurrentStateToPreviousStates h s = (h1, s1)" by (simp add: h1_def s1_def)
  have "subscribers s1 = []"
    using assms(2) by (simp add: s1_def addCurrentStateToPreviousStates_eq)
  then have "notify (Object_assign h1 (state s1) src) s1 = (None, s1, [])"
    by (rule notify_no_subscribers)
  from setStoreState_valid[OF assms(1)[unfolded v] a this] show ?thesis
    by (simp add: v)
qed

lemma validateArguments_None:
  "validateArguments h a_name v a_log n = None \<longleftrightarrow>
     (case a_name of VStr x \<Rightarrow> x \<noteq> [] | _ \<Rightarrow> False) \<and> isObject h v
     \<and> (case a_log of VBool b \<Rightarrow> True | _ \<Rightarrow> False) \<and> \<not> isNaN n \<and> \<not> js_lt n (Fin 1)"
  by (auto simp: validateArguments_def validateNewState_def)

lemma Store_constructor_coercion_throws:
  assumes "ToNumber ext (if a_n = VUndefined then VNum (Fin 15) else a_n) = None"
  shows "Store_constructor ext a_name a_init a_log a_n h =
           (Inl TypeError, if a_init = VUndefined then h @ [Obj []] else h, [])"
  using assms by (simp add: Store_constructor_def Let_def)

lemma Store_constructor_cases:
  assumes "ToNumber ext (if a_n = VUndefined then VNum (Fin 15) else a_n) = Some n"
  shows "Store_constructor ext a_name a_init a_log a_n h =
     (let h0 = (if a_init = VUndefined then h @ [Obj []] else h);
          initialState = (if a_init = VUndefined then VRef (length h) else a_init);
          a_log' = (if a_log = VUndefined then VBool False else a_log);
          this = \<lparr>name = string_of a_name, state = length h0, previousStates = [],
                  subscribers = [], logStateToConsole = bool_of a_log',
                  numberOfPreviousStatesToKeep = n\<rparr>
      in case validateArguments h0 a_name initialState a_log' n of
           Some (e, evs) \<Rightarrow> (Inl e, h0, evs)
         | None \<Rightarrow>
             (Inr (fst (snd (snd (setStoreState initialState (h0 @ [Obj []]) this)))),
              fst (snd (setStoreState initialState (h0 @ [Obj []]) this)),
              snd (snd (snd (setStoreState initialState (h0 @ [Obj []]) this)))))"
proof -
  define h0 where "h0 = (if a_init = VUndefined then h @ [Obj []] else h)"
  define v0 where "v0 = (if a_init = VUndefined then VRef (length h) else a_init)"
  define lg where "lg = (if a_log = VUndefined then VBool False else a_log)"
  define this where "this = \<lparr>name = string_of a_name, state = length h0, previousStates = [],
                  subscribers = [], logStateToConsole = bool_of lg,
                  numberOfPreviousStatesToKeep = n\<rparr>"
  have "Store_constructor ext a_name a_init a_log a_n h =
     (case Some n of
        None \<Rightarrow> (Inl TypeError, h0, [])
      | Some m \<Rightarrow>
     (case validateArguments h0 a_name v0 lg m of
           Some (e, evs) \<Rightarrow> (Inl e, h0, evs)
         | None \<Rightarrow>
             (case setStoreState v0 (h0 @ [Obj []])
                          \<lparr>name = string_of a_name, state = length h0, previousStates = [],
                           subscribers = [], logStateToConsole = bool_of lg,
                           numberOfPreviousStatesToKeep = m\<rparr> of
                (None, h1, s1, evs) \<Rightarrow> (Inr s1, h1, evs)
              | (Some e, h1, s1, evs) \<Rightarrow> (Inl e, h1, evs))))"
    unfolding Store_constructor_def Let_def h0_def v0_def lg_def assms[symmetric] ..
  then have unf: "Store_constructor ext a_name a_init a_log a_n h =
     (case validateArguments h0 a_name v0 lg n of
           Some (e, evs) \<Rightarrow> (Inl e, h0, evs)
         | None \<Rightarrow>
             (case setStoreState v0 (h0 @ [Obj []]) this of
                (None, h1, s1, evs) \<Rightarrow> (Inr s1, h1, evs)
              | (Some e, h1, s1, evs) \<Rightarrow> (Inl e, h1, evs)))"
    unfolding this_def by simp
  have "Store_constructor ext a_name a_init a_log a_n h =
     (case validateArguments h0 a_name v0 lg n of
           Some (e, evs) \<Rightarrow> (Inl e, h0, evs)
         | None \<Rightarrow>
             (Inr (fst (snd (snd (setStoreState v0 (h0 @ [Obj []]) this)))),
              fst (snd (setStoreState v0 (h0 @ [Obj []]) this)),
              snd (snd (snd (setStoreState v0 (h0 @ [Obj []]) this)))))"
  proof (cases "validateArguments h0 a_name v0 lg n")
    case None
    then have "isObject h0 v0" by (simp add: validateArguments_None)
    then have "fst (setStoreState v0 (h0 @ [Obj []]) this) = None"
      by (simp add: setStoreState_no_subscribers isObject_append this_def)
    then obtain h1 s1 evs where "setStoreState v0 (h0 @ [Obj []]) this = (None, h1, s1, evs)"
      by (metis fst_conv prod_cases4)
    with None show ?thesis by (simp add: unf)
  next
    case (Some a)
    then show ?thesis by (simp add: unf)
  qed
  then show ?thesis
    unfolding h0_def v0_def lg_def this_def Let_def .
qed

lemma isObject_fresh: "isObject (h @ [Obj []]) (VRef (length h))"
  by (simp add: isObject_def)

lemma first_three_valid_iff:
  "first_three_valid h a_name a_init a_log \<longleftrightarrow>
     (case a_name of VStr x \<Rightarrow> x \<noteq> [] | _ \<Rightarrow> False)
     \<and> isObject (if a_init = VUndefined then h @ [Obj []] else h)
                 (if a_init = VUndefined then VRef (length h) else a_init)
     \<and> (case (if a_log = VUndefined then VBool False else a_log) of VBool b \<Rightarrow> True | _ \<Rightarrow> False)"
  by (cases a_log) (simp_all add: first_three_valid_def isObject_fresh)

lemma Store_constructor_succeeds_iff:
  "(\<exists>s h' evs. Store_constructor ext a_name a_init a_log a_n h = (Inr s, h', evs)) \<longleftrightarrow>
     first_three_valid h a_name a_init a_log
     \<and> (case ToNumber ext (if a_n = VUndefined then VNum (Fin 15) else a_n) of
          None \<Rightarrow> False
        | Some n \<Rightarrow> \<not> isNaN n \<and> \<not> js_lt n (Fin 1))"
proof (cases "ToNumber ext (if a_n = VUndefined then VNum (Fin 15) else a_n)")
  case None
  then show ?thesis by (simp add: Store_constructor_coercion_throws)
next
  case (Some n)
  let ?va = "validateArguments (if a_init = VUndefined then h @ [Obj []] else h) a_name
     (if a_init = VUndefined then VRef (length h) else a_init)
     (if a_log = VUndefined then VBool False else a_log) n"
  have "(\<exists>s h' evs. Store_constructor ext a_name a_init a_log a_n h = (Inr s, h', evs))
          \<longleftrightarrow> ?va = None"
    unfolding Store_constructor_cases[OF Some] Let_def by (cases ?va) auto
  also have "\<dots> \<longleftrightarrow> first_three_valid h a_name a_init a_log \<and> \<not> isNaN n \<and> \<not> js_lt n (Fin 1)"
    unfolding validateArguments_None first_three_valid_iff by blast
  finally show ?thesis by (simp add: Some)
qed

lemma Store_constructor_this:
  assumes "Store_constructor ext a_name a_init a_log a_n h = (Inr s, h', evs)"
  shows "\<exists>h0 v0 blank n. setStoreState v0 (h0 @ [Obj []]) blank = (None, h', s, evs)
           \<and> h0 = (if a_init = VUndefined then h @ [Obj []] else h)
           \<and> v0 = (if a_init = VUndefined then VRef (length h) else a_init)
           \<and> isObject h0 v0
           \<and> ToNumber ext (if a_n = VUndefined then VNum (Fin 15) else a_n) = Some n
           \<and> \<not> isNaN n \<and> \<not> js_lt n (Fin 1)
           \<and> blank = \<lparr>name = string_of a_name, state = length h0, previousStates = [],
                  subscribers = [],
                  logStateToConsole = bool_of (if a_log = VUndefined then VBool False else a_log),
                  numberOfPreviousStatesToKeep = n\<rparr>"
proof -
  let ?h0 = "if a_init = VUndefined then h @ [Obj []] else h"
  let ?v0 = "if a_init = VUndefined then VRef (length h) else a_init"
  let ?lg = "if a_log = VUndefined then VBool False else a_log"
  from assms obtain n where n: "ToNumber ext (if a_n = VUndefined then VNum (Fin 15) else a_n) = Some n"
    by (cases "ToNumber ext (if a_n = VUndefined then VNum (Fin 15) else a_n)")
       (simp_all add: Store_constructor_coercion_throws)
  let ?blank = "\<lparr>name = string_of a_name, state = length ?h0, previousStates = [],
                  subscribers = [], logStateToConsole = bool_of ?lg,
                  numberOfPreviousStatesToKeep = n\<rparr>"
  have va: "validateArguments ?h0 a_name ?v0 ?lg n = None"
    using assms unfolding Store_constructor_cases[OF n] Let_def
    by (cases "validateArguments ?h0 a_name ?v0 ?lg n") auto
  then have io: "isObject ?h0 ?v0" and nn: "\<not> isNaN n" "\<not> js_lt n (Fin 1)"
    by (simp_all add: validateArguments_None)
  then have "fst (setStoreState ?v0 (?h0 @ [Obj []]) ?blank) = None"
    by (simp add: setStoreState_no_subscribers isObject_append)
  moreover have "(Inr s, h', evs) =
      (Inr (fst (snd (snd (setStoreState ?v0 (?h0 @ [Obj []]) ?blank)))),
              fst (snd (setStoreState ?v0 (?h0 @ [Obj []]) ?blank)),
              snd (snd (snd (setStoreState ?v0 (?h0 @ [Obj []]) ?blank))))"
    using assms va unfolding Store_constructor_cases[OF n] Let_def by simp
  ultimately have "setStoreState ?v0 (?h0 @ [Obj []]) ?blank = (None, h', s, evs)"
    by (metis Inr_inject Pair_inject prod.collapse)
  with io n nn show ?thesis by blast
qed

lemma Store_constructor_cap:
  assumes "Store_constructor ext a_name a_init a_log a_n h = (Inr s, h', evs)"
  shows "ToNumber ext (if a_n = VUndefined then VNum (Fin 15) else a_n)
           = Some (numberOfPreviousStatesToKeep s)"
    and "\<not> isNaN (numberOfPreviousStatesToKeep s)"
    and "\<not> js_lt (numberOfPreviousStatesToKeep s) (Fin 1)"
proof -
  from Store_constructor_this[OF assms] obtain h0 v0 blank n where
    r: "setStoreState v0 (h0 @ [Obj []]) blank = (None, h', s, evs)"
    and n: "ToNumber ext (if a_n = VUndefined then VNum (Fin 15) else a_n) = Some n"
      "\<not> isNaN n" "\<not> js_lt n (Fin 1)"
    and b: "numberOfPreviousStatesToKeep blank = n"
    by fastforce
  from setStoreState_fields[OF r] b have "numberOfPreviousStatesToKeep s = n" by simp
  with n show "ToNumber ext (if a_n = VUndefined then VNum (Fin 15) else a_n)
           = Some (numberOfPreviousStatesToKeep s)"
    and "\<not> isNaN (numberOfPreviousStatesToKeep s)"
    and "\<not> js_lt (numberOfPreviousStatesToKeep s) (Fin 1)"
    by simp_all
qed

lemma perform_cap:
  "numberOfPreviousStatesToKeep (snd (perform a (h, s))) = numberOfPreviousStatesToKeep s"
proof (cases a)
  case (SetStoreState v)
  obtain e h' s' evs where r: "setStoreState v h s = (e, h', s', evs)"
    by (metis prod_cases4)
  with setStoreState_fields[OF r] SetStoreState show ?thesis by simp
next
  case (Subscribe v)
  then show ?thesis by (simp add: subscribe_cases)
qed (simp_all add: unsubscribe_def)

lemma perform_all_cap:
  "numberOfPreviousStatesToKeep (snd (perform_all as w)) = numberOfPreviousStatesToKeep (snd w)"
proof (induction as arbitrary: w)
  case Nil
  then show ?case by simp
next
  case (Cons a as)
  have "numberOfPreviousStatesToKeep (snd (perform a w)) = numberOfPreviousStatesToKeep (snd w)"
    using perform_cap[of a "fst w" "snd w"] by simp
  with Cons.IH[of "perform a w"] show ?case by simp
qed

lemma example_constructed_fractional:
  "Store_constructor example_ext (VStr ''counter'') (VRef 0) VUndefined (VNum (Fin (3/2))) example_heap
     = (Inr (example_store\<lparr>numberOfPreviousStatesToKeep := Fin (3/2)\<rparr>), example_heap', [])"
  by (simp add: Store_constructor_def validateArguments_def validateNewState_def isObject_def
      isNaN_def setStoreState_def addCurrentStateToPreviousStates_def clone_def notify_def
      Object_assign_def js_gt_def doLogStateToConsole_def example_heap_def example_store_def
      example_heap'_def)

lemma example_constructed_nameless:
  "Store_constructor example_ext (VStr []) (VRef 0) VUndefined (VNum (Fin 15)) example_heap
     = (Inl StoreNameInvalid, example_heap, [ConsoleError (VStr [])])"
  by (simp add: Store_constructor_def validateArguments_def throwError_def strict_eq_def Let_def)

lemma example_constructed_uncoercible:
  "Store_constructor example_ext_valueOf (VStr ''counter'') (VRef 0) VUndefined (VRef 4)
       example_heap_valueOf
     = (Inl TypeError, example_heap_valueOf, [])"
  by (simp add: Store_constructor_def example_ext_valueOf_def)

lemma not_integer_three_halves: "\<not> is_integer (Fin (3/2))"
  by code_simp

text \<open>
  C7, as the code has it.  When the constructor returns, the stored
  \<^verbatim>\<open>numberOfPreviousStatesToKeep\<close> is the coerced fourth argument (15 when the argument is
  left out); it is a number, not \<^verbatim>\<open>NaN\<close> and not below 1, and it is immutable: after any
  sequence \<open>as\<close> of allocations and of calls of the store's methods, throwing ones included,
  it is what it was.  When the first three arguments are valid, construction throws exactly
  when the coercion of the fourth argument throws or gives \<^verbatim>\<open>NaN\<close> or a number below 1.
  Nothing makes the number an integer:
  \<^verbatim>\<open>new Store('counter', {count: 0}, undefined, 1.5)\<close> returns a store that keeps 1.5.  An
  invalid first argument makes construction throw whatever the fourth is:
  \<^verbatim>\<open>new Store('', {count: 0}, undefined, 15)\<close> throws.  And a fourth argument whose \<^verbatim>\<open>valueOf\<close>
  throws makes construction throw with no coerced number at all.
\<close>

theorem history_depth_is_number_at_least_one:
  "(Store_constructor ext a_name a_init a_log a_n h = (Inr s, h', evs) \<longrightarrow>
      ToNumber ext (if a_n = VUndefined then VNum (Fin 15) else a_n)
        = Some (numberOfPreviousStatesToKeep s)
      \<and> \<not> isNaN (numberOfPreviousStatesToKeep s)
      \<and> \<not> js_lt (numberOfPreviousStatesToKeep s) (Fin 1)
      \<and> numberOfPreviousStatesToKeep (snd (perform_all as (h', s)))
          = numberOfPreviousStatesToKeep s)
   \<and> (first_three_valid h a_name a_init a_log \<longrightarrow>
        ((\<exists>e. fst (Store_constructor ext a_name a_init a_log a_n h) = Inl e) \<longleftrightarrow>
           (case ToNumber ext (if a_n = VUndefined then VNum (Fin 15) else a_n) of
              None \<Rightarrow> True
            | Some n \<Rightarrow> isNaN n \<or> js_lt n (Fin 1))))
   \<and> Store_constructor ext a_name a_init a_log VUndefined h
        = Store_constructor ext a_name a_init a_log (VNum (Fin 15)) h"
proof (intro conjI impI)
  assume c: "Store_constructor ext a_name a_init a_log a_n h = (Inr s, h', evs)"
  from Store_constructor_cap[OF c]
  show "ToNumber ext (if a_n = VUndefined then VNum (Fin 15) else a_n)
          = Some (numberOfPreviousStatesToKeep s)"
    and "\<not> isNaN (numberOfPreviousStatesToKeep s)"
    and "\<not> js_lt (numberOfPreviousStatesToKeep s) (Fin 1)"
    by simp_all
  show "numberOfPreviousStatesToKeep (snd (perform_all as (h', s)))
          = numberOfPreviousStatesToKeep s"
    using perform_all_cap[of as "(h', s)"] by simp
next
  assume v: "first_three_valid h a_name a_init a_log"
  obtain r h1 evs1 where r: "Store_constructor ext a_name a_init a_log a_n h = (r, h1, evs1)"
    by (rule prod_cases3)
  have "(\<exists>e. fst (Store_constructor ext a_name a_init a_log a_n h) = Inl e)
          \<longleftrightarrow> \<not> (\<exists>s h' evs. Store_constructor ext a_name a_init a_log a_n h = (Inr s, h', evs))"
    unfolding r by (cases r) auto
  with v show "(\<exists>e. fst (Store_constructor ext a_name a_init a_log a_n h) = Inl e) \<longleftrightarrow>
           (case ToNumber ext (if a_n = VUndefined then VNum (Fin 15) else a_n) of
              None \<Rightarrow> True
            | Some n \<Rightarrow> isNaN n \<or> js_lt n (Fin 1))"
    unfolding Store_constructor_succeeds_iff
    by (cases "ToNumber ext (if a_n = VUndefined then VNum (Fin 15) else a_n)") simp_all
next
  show "Store_constructor ext a_name a_init a_log VUndefined h
        = Store_constructor ext a_name a_init a_log (VNum (Fin 15)) h"
    by (simp add: Store_constructor_def)
qed

theorem history_depth_not_integer_counterexample:
  "fst (Store_constructor example_ext (VStr ''counter'') (VRef 0) VUndefined (VNum (Fin (3/2))) example_heap)
     = Inr (example_store\<lparr>numberOfPreviousStatesToKeep := Fin (3/2)\<rparr>)
   \<and> \<not> is_integer (numberOfPreviousStatesToKeep (example_store\<lparr>numberOfPreviousStatesToKeep := Fin (3/2)\<rparr>))
   \<and> fst (Store_constructor example_ext (VStr []) (VRef 0) VUndefined (VNum (Fin 15)) example_heap)
     = Inl StoreNameInvalid
   \<and> ToNumber example_ext (VNum (Fin 15)) = Some (Fin 15)
   \<and> \<not> isNaN (Fin 15) \<and> \<not> js_lt (Fin 15) (Fin 1)
   \<and> first_three_valid example_heap_valueOf (VStr ''counter'') (VRef 0) VUndefined
   \<and> fst (Store_constructor example_ext_valueOf (VStr ''counter'') (VRef 0) VUndefined (VRef 4)
            example_heap_valueOf)
     = Inl TypeError
   \<and> ToNumber example_ext_valueOf (VRef 4) = None"
  using example_constructed_fractional example_constructed_nameless not_integer_three_halves
    example_constructed_uncoercible
  by (simp del: is_integer.simps
        add: isNaN_def example_ext_valueOf_def first_three_valid_def isObject_def
             example_heap_valueOf_def example_heap_def)

theorem history_depth_is_number_at_least_one_witness:
  "Store_constructor example_ext (VStr ''counter'') (VRef 0) VUndefined (VNum (Fin (3/2))) example_heap
     = (Inr (example_store\<lparr>numberOfPreviousStatesToKeep := Fin (3/2)\<rparr>), example_heap', [])
   \<and> ToNumber example_ext (VNum (Fin (3/2))) = Some (Fin (3/2))
   \<and> \<not> js_lt (Fin (3/2)) (Fin 1)
   \<and> numberOfPreviousStatesToKeep (snd (perform_all [Subscribe (VRef 2), Unsubscribe (VRef 2)]
         (example_heap', example_store\<lparr>numberOfPreviousStatesToKeep := Fin (3/2)\<rparr>))) = Fin (3/2)
   \<and> first_three_valid example_heap (VStr ''counter'') (VRef 0) VUndefined
   \<and> (\<exists>e. fst (Store_constructor example_ext (VStr ''counter'') (VRef 0) VUndefined (VNum (Fin (1/2))) example_heap) = Inl e)
   \<and> js_lt (Fin (1/2)) (Fin 1)"
proof -
  have v: "first_three_valid example_heap (VStr ''counter'') (VRef 0) VUndefined"
    by (simp add: first_three_valid_def isObject_def example_heap_def)
  show ?thesis
    using v example_constructed_fractional
      history_depth_is_number_at_least_one[of example_ext "VStr ''counter''" "VRef 0" VUndefined
        "VNum (Fin (3/2))" example_heap "example_store\<lparr>numberOfPreviousStatesToKeep := Fin (3/2)\<rparr>"
        example_heap' "[]" "[Subscribe (VRef 2), Unsubscribe (VRef 2)]"]
      history_depth_is_number_at_least_one[of example_ext "VStr ''counter''" "VRef 0" VUndefined
        "VNum (Fin (1/2))" example_heap]
    by simp
qed

section \<open>The invariant of a store\<close>

lemma setStoreState_effect:
  assumes "isObject h (VRef src)" and "isObject h (VRef (state s))"
    and "setStoreState (VRef src) h s = (e, h', s', evs)"
  shows "h' = (h @ map (shift_obj (length h)) h)
              [state s := Obj (assign_props (props_of (h ! state s)) (props_of (h ! src)))]"
    and "previousStates s' =
          (if js_gt (Fin (of_nat (length (VRef (state s + length h) # previousStates s))))
                (numberOfPreviousStatesToKeep s)
           then slice0 (VRef (state s + length h) # previousStates s) (numberOfPreviousStatesToKeep s)
           else VRef (state s + length h) # previousStates s)"
    and "fst (notify h' (snd (addCurrentStateToPreviousStates h s))) = e"
    and "fst (snd (notify h' (snd (addCurrentStateToPreviousStates h s)))) = s'"
    and "evs = snd (snd (notify h' (snd (addCurrentStateToPreviousStates h s))))
                 @ (if e = None then doLogStateToConsole s' else [])"
proof -
  let ?h1 = "h @ map (shift_obj (length h)) h"
  let ?s1 = "snd (addCurrentStateToPreviousStates h s)"
  from assms(1,2) have lt: "src < length h" "state s < length h"
    by (simp_all add: isObject_def)
  have a: "addCurrentStateToPreviousStates h s = (?h1, ?s1)"
    by (simp add: addCurrentStateToPreviousStates_eq)
  have f: "state ?s1 = state s"
    by (simp add: addCurrentStateToPreviousStates_eq)
  obtain e0 s2 evs0 where n: "notify (Object_assign ?h1 (state ?s1) src) ?s1 = (e0, s2, evs0)"
    by (metis prod_cases3)
  from setStoreState_valid[OF assms(1) a n] assms(3)
  have r: "e = e0" "h' = Object_assign ?h1 (state ?s1) src" "s' = s2"
    "evs = evs0 @ (if e0 = None then doLogStateToConsole s2 else [])"
    by simp_all
  show h': "h' = ?h1[state s := Obj (assign_props (props_of (h ! state s)) (props_of (h ! src)))]"
    using lt by (simp add: r(2) f Object_assign_def nth_append)
  from n have n': "notify h' ?s1 = (e, s', evs0)"
    by (simp add: r(1,2,3))
  from only_unsubscribed_fields(3)[OF notify_only[OF n']]
  show "previousStates s' =
          (if js_gt (Fin (of_nat (length (VRef (state s + length h) # previousStates s))))
                (numberOfPreviousStatesToKeep s)
           then slice0 (VRef (state s + length h) # previousStates s) (numberOfPreviousStatesToKeep s)
           else VRef (state s + length h) # previousStates s)"
    by (simp add: addCurrentStateToPreviousStates_eq)
  have ev: "evs = evs0 @ (if e = None then doLogStateToConsole s' else [])"
    by (simp add: r(1,3,4))
  from n' show "fst (notify h' ?s1) = e" and "fst (snd (notify h' ?s1)) = s'" by simp_all
  from n' ev show "evs = snd (snd (notify h' ?s1))
                 @ (if e = None then doLogStateToConsole s' else [])" by simp
qed

lemma frozen_stable:
  assumes "history_frozen h s" and "length h \<le> length h'"
    and "\<And>a. a < length h \<Longrightarrow> a \<noteq> state s \<Longrightarrow> h' ! a = h ! a"
    and "p \<in> set (previousStates s)"
  shows "view d h' p = view d h p"
    and "\<exists>lo hi a. state s < lo \<and> closed_region h' lo hi \<and> p = VRef a \<and> lo \<le> a \<and> a < hi"
proof -
  from assms(1,4) obtain lo hi a where
    r: "state s < lo" "closed_region h lo hi" "p = VRef a" "lo \<le> a" "a < hi"
    unfolding history_frozen_def by blast
  from r(2) have hi: "hi \<le> length h" by (simp add: closed_region_def)
  have same: "h' ! b = h ! b" if "lo \<le> b" "b < hi" for b
    using that r(1) hi by (intro assms(3)) simp_all
  from hi assms(2) have hi': "hi \<le> length h'" by simp
  have inr: "in_region lo hi p" using r by (simp add: in_region_def)
  show "view d h' p = view d h p"
    by (rule view_region[OF r(2) hi' _ inr]) (rule same)
  have "closed_region h' lo hi"
    by (rule closed_region_transport[OF r(2) hi']) (rule same)
  with r show "\<exists>lo hi a. state s < lo \<and> closed_region h' lo hi \<and> p = VRef a \<and> lo \<le> a \<and> a < hi"
    by blast
qed

lemma cap_ok_within_zero: "cap_ok n \<Longrightarrow> within_cap 0 n"
  by (cases n) (simp_all add: cap_ok_def isNaN_def)

lemma setStoreState_inv:
  assumes inv: "store_inv (h, s)" and v: "isObject h (VRef src)"
    and r: "setStoreState (VRef src) h s = (e, h', s', evs)"
  shows "store_inv (h', s')"
    and "previousStates s' \<noteq> []"
    and "hd (previousStates s') = VRef (state s + length h)"
    and "prefix (previousStates s') (VRef (state s + length h) # previousStates s)"
    and "view d h' (VRef (state s + length h)) = view d h (VRef (state s))"
    and "\<And>p. p \<in> set (previousStates s) \<Longrightarrow> view d h' p = view d h p"
proof -
  let ?n = "length h"
  let ?h1 = "h @ map (shift_obj ?n) h"
  let ?c = "VRef (state s + ?n)"
  let ?ob = "Obj (assign_props (props_of (h ! state s)) (props_of (h ! src)))"
  from inv have wf: "wf_heap h" and st: "isObject h (VRef (state s))"
    and cap: "cap_ok (numberOfPreviousStatesToKeep s)" and fr: "history_frozen h s"
    by (simp_all add: store_inv_def)
  from st v have lt: "state s < ?n" "src < ?n" by (simp_all add: isObject_def)
  from setStoreState_effect(1,2)[OF v st r] have
    h': "h' = ?h1[state s := ?ob]" and
    ps': "previousStates s' =
          (if js_gt (Fin (of_nat (length (?c # previousStates s)))) (numberOfPreviousStatesToKeep s)
           then slice0 (?c # previousStates s) (numberOfPreviousStatesToKeep s)
           else ?c # previousStates s)"
    by simp_all
  from setStoreState_fields[OF r] have
    s': "state s' = state s" "numberOfPreviousStatesToKeep s' = numberOfPreviousStatesToKeep s"
    by simp_all
  have cp: "previousStates s' \<noteq> [] \<and> hd (previousStates s') = hd (?c # previousStates s)
      \<and> prefix (previousStates s') (?c # previousStates s)
      \<and> within_cap (length (previousStates s')) (numberOfPreviousStatesToKeep s)"
    using capped_props[OF cap, of "?c # previousStates s"] unfolding ps' by simp
  then show ne: "previousStates s' \<noteq> []"
    and "hd (previousStates s') = ?c"
    and pre: "prefix (previousStates s') (?c # previousStates s)"
    by simp_all
  have len: "length h' = ?n + ?n" by (simp add: h')
  have same: "h' ! a = h ! a" if "a < ?n" "a \<noteq> state s" for a
    using that by (simp add: h' nth_append)
  have same1: "h' ! a = ?h1 ! a" if "?n \<le> a" for a
    using that lt by (simp add: h')
  show old: "view d h' p = view d h p" if "p \<in> set (previousStates s)" for p
    by (rule frozen_stable(1)[OF fr _ same that]) (simp_all add: len)
  have cl1: "closed_region ?h1 ?n (?n + ?n)" by (rule closed_region_clone[OF wf])
  have cl: "closed_region h' ?n (?n + ?n)"
    by (rule closed_region_transport[OF cl1]) (simp_all add: len same1)
  have "view d h' ?c = view d ?h1 ?c"
    by (rule view_region[OF cl1]) (use lt in \<open>simp_all add: len same1 in_region_def\<close>)
  also have "\<dots> = view d h (VRef (state s))"
    using view_clone[of d h "VRef (state s)"] by simp
  finally show "view d h' ?c = view d h (VRef (state s))" .
  have ok_t: "obj_ok ?n (Obj (props_of (h ! state s)))"
    using wf_heap_nth[OF wf lt(1)] st by (cases "h ! state s") (simp_all add: isObject_def)
  have ok_s: "obj_ok ?n (Obj (props_of (h ! src)))"
    using wf_heap_nth[OF wf lt(2)] v by (cases "h ! src") (simp_all add: isObject_def)
  have "obj_ok (?n + ?n) ?ob"
    by (rule obj_ok_mono[OF obj_ok_assign[OF ok_t ok_s]]) simp
  then have wf': "wf_heap h'"
    unfolding h' using wf_heap_update[OF wf_heap_clone[OF wf], of ?ob "state s"] by simp
  have st': "isObject h' (VRef (state s'))"
    using lt by (simp add: s' h' isObject_def)
  have fr': "history_frozen h' s'"
    unfolding history_frozen_def
  proof
    fix p assume "p \<in> set (previousStates s')"
    with pre have "p \<in> set (?c # previousStates s)"
      using set_mono_prefix by blast
    then consider "p = ?c" | "p \<in> set (previousStates s)" by auto
    then show "\<exists>lo hi a. state s' < lo \<and> closed_region h' lo hi \<and> p = VRef a \<and> lo \<le> a \<and> a < hi"
    proof cases
      case 1
      with cl lt show ?thesis
        by (intro exI[of _ "length h"] exI[of _ "length h + length h"]
              exI[of _ "state s + length h"]) (simp add: s')
    next
      case 2
      have "\<exists>lo hi a. state s < lo \<and> closed_region h' lo hi \<and> p = VRef a \<and> lo \<le> a \<and> a < hi"
        by (rule frozen_stable(2)[OF fr _ same 2]) (simp_all add: len)
      then show ?thesis by (simp add: s')
    qed
  qed
  from cp have "within_cap (length (previousStates s')) (numberOfPreviousStatesToKeep s')"
    by (simp add: s')
  moreover from cap have "cap_ok (numberOfPreviousStatesToKeep s')" by (simp add: s')
  ultimately show "store_inv (h', s')"
    using wf' st' fr' by (simp add: store_inv_def)
qed

lemma history_frozen_subscribers [simp]:
  "history_frozen h (s\<lparr>subscribers := x\<rparr>) = history_frozen h s"
  by (simp add: history_frozen_def)

lemma store_inv_subscribers [simp]:
  "store_inv (h, s\<lparr>subscribers := x\<rparr>) = store_inv (h, s)"
  by (simp add: store_inv_def)

lemma perform_inv:
  assumes "store_inv w" and "previousStates (snd w) \<noteq> []" and "admissible (fst w) a"
  shows "store_inv (perform a w) \<and> previousStates (snd (perform a w)) \<noteq> []"
proof (cases w)
  case (Pair h s)
  with assms have inv: "store_inv (h, s)" and ne: "previousStates s \<noteq> []" by simp_all
  show ?thesis
  proof (cases a)
    case (Allocate objs)
    from inv have wf: "wf_heap h" and st: "isObject h (VRef (state s))"
      and fr: "history_frozen h s"
      by (simp_all add: store_inv_def)
    from assms(3) Pair Allocate have "wf_heap (h @ objs)"
      by (simp add: wf_heap_append[OF wf])
    moreover have "history_frozen (h @ objs) s"
      unfolding history_frozen_def
    proof
      fix p assume "p \<in> set (previousStates s)"
      then show "\<exists>lo hi a. state s < lo \<and> closed_region (h @ objs) lo hi \<and> p = VRef a \<and> lo \<le> a \<and> a < hi"
        by (intro frozen_stable(2)[OF fr]) (simp_all add: nth_append)
    qed
    ultimately show ?thesis
      using inv ne Pair Allocate by (simp add: store_inv_def isObject_append)
  next
    case (SetStoreState v)
    obtain e h' s' evs where r: "setStoreState v h s = (e, h', s', evs)"
      by (metis prod_cases4)
    show ?thesis
    proof (cases "isObject h v")
      case False
      with r inv ne Pair SetStoreState show ?thesis by (simp add: setStoreState_invalid)
    next
      case True
      then obtain src where v: "v = VRef src" using isObject_ref by blast
      from setStoreState_inv(1,2)[OF inv True[unfolded v] r[unfolded v]] r Pair SetStoreState
      show ?thesis by simp
    qed
  next
    case (Subscribe v)
    with inv ne Pair show ?thesis by (simp add: subscribe_cases)
  next
    case (Unsubscribe v)
    with inv ne Pair show ?thesis by (simp add: unsubscribe_def)
  qed
qed

lemma constructed_inv:
  assumes "wf_heap h" and "val_ok (length h) a_init"
    and "Store_constructor ext a_name a_init a_log a_n h = (Inr s, h', evs)"
  shows "store_inv (h', s) \<and> previousStates s \<noteq> []"
proof -
  from Store_constructor_this[OF assms(3)] obtain h0 v0 blank n where
    r: "setStoreState v0 (h0 @ [Obj []]) blank = (None, h', s, evs)"
    and h0: "h0 = (if a_init = VUndefined then h @ [Obj []] else h)"
    and io: "isObject h0 v0"
    and n: "\<not> isNaN n" "\<not> js_lt n (Fin 1)"
    and bl: "blank = \<lparr>name = string_of a_name, state = length h0, previousStates = [],
                  subscribers = [],
                  logStateToConsole = bool_of (if a_log = VUndefined then VBool False else a_log),
                  numberOfPreviousStatesToKeep = n\<rparr>"
    by blast
  have b: "state blank = length h0" "previousStates blank = []"
      "numberOfPreviousStatesToKeep blank = n"
    by (simp_all add: bl)
  have cap: "cap_ok (numberOfPreviousStatesToKeep blank)"
    using n by (simp add: b cap_ok_def)
  have "wf_heap h0" using assms(1) by (simp add: h0 wf_heap_append)
  then have wf: "wf_heap (h0 @ [Obj []])" by (simp add: wf_heap_append)
  have "store_inv (h0 @ [Obj []], blank)"
    using wf cap cap_ok_within_zero[OF cap]
    by (simp add: store_inv_def b isObject_fresh history_frozen_def)
  then have i: "store_inv (h0 @ [Obj []], blank)" .
  from io obtain src where v0: "v0 = VRef src" using isObject_ref by blast
  from io have io': "isObject (h0 @ [Obj []]) (VRef src)"
    unfolding v0 by (rule isObject_append)
  from setStoreState_inv(1,2)[OF i io' r[unfolded v0]] show ?thesis by simp
qed

lemma reachable_inv: "reachable w \<Longrightarrow> store_inv w \<and> previousStates (snd w) \<noteq> []"
proof (induction rule: reachable.induct)
  case (constructed h a_init ext a_name a_log a_n s h' evs)
  then show ?case using constructed_inv by simp
next
  case (performed w a)
  then show ?case using perform_inv by blast
qed

section \<open>The history\<close>

lemma reachable_within_cap:
  "reachable (h, s) \<Longrightarrow> within_cap (length (previousStates s)) (numberOfPreviousStatesToKeep s)"
  using reachable_inv[of "(h, s)"] by (simp add: store_inv_def)

lemma example_update_history:
  "previousStates (fst (snd (snd (setStoreState (VRef 3) example_heap' example_store))))
     = [VRef 14, VRef 9]"
  by (simp add: validateNewState_def isObject_def setStoreState_def notify_def
      addCurrentStateToPreviousStates_def clone_def js_gt_def example_store_def
      example_heap'_def Let_def)

lemma example_store_fields:
  "state example_store = 4" "previousStates example_store = [VRef 9]"
  "subscribers example_store = []" "name example_store = ''counter''"
  "logStateToConsole example_store = False"
  "numberOfPreviousStatesToKeep example_store = Fin 15"
  by (simp_all add: example_store_def)

lemma isObject_example: "isObject example_heap' (VRef 3)"
  by (simp add: isObject_def example_heap'_def)

text \<open>
  C2.  In every store there is (one the constructor returned, after any actions, also ones
  that threw), the length of \<^verbatim>\<open>previousStates\<close> is at most
  \<^verbatim>\<open>numberOfPreviousStatesToKeep\<close>.  A call of \<^verbatim>\<open>setStoreState\<close> with an object leaves a
  history that is within the bound, is not empty, and is a front part of the new snapshot
  followed by the old history (what is cut off is the oldest entries); its first element is
  deeply equal, in the heap after the call, to the state as it was in the heap before.
\<close>

theorem history_bounded_and_headed:
  assumes "reachable (h, s)"
  shows "within_cap (length (previousStates s)) (numberOfPreviousStatesToKeep s)
       \<and> (isObject h v \<and> setStoreState v h s = (e, h', s', evs) \<longrightarrow>
            within_cap (length (previousStates s')) (numberOfPreviousStatesToKeep s')
          \<and> previousStates s' \<noteq> []
          \<and> prefix (previousStates s') (hd (previousStates s') # previousStates s)
          \<and> view d h' (hd (previousStates s')) = view d h (VRef (state s)))"
proof (intro conjI impI)
  show "within_cap (length (previousStates s)) (numberOfPreviousStatesToKeep s)"
    using assms by (rule reachable_within_cap)
next
  assume a: "isObject h v \<and> setStoreState v h s = (e, h', s', evs)"
  then obtain src where v: "v = VRef src" using isObject_ref by blast
  from a have io: "isObject h (VRef src)" and r: "setStoreState (VRef src) h s = (e, h', s', evs)"
    by (simp_all add: v)
  from assms have inv: "store_inv (h, s)" using reachable_inv by fastforce
  note f = setStoreState_inv[OF inv io r]
  from f(1) show "within_cap (length (previousStates s')) (numberOfPreviousStatesToKeep s')"
    by (simp add: store_inv_def)
  show "previousStates s' \<noteq> []" by (rule f(2))
  show "prefix (previousStates s') (hd (previousStates s') # previousStates s)"
    using f(3,4) by simp
  show "view d h' (hd (previousStates s')) = view d h (VRef (state s))"
    using f(3) f(5)[of d] by simp
qed

theorem history_bounded_and_headed_witness:
  "reachable (example_heap', example_store)
   \<and> within_cap (length (previousStates example_store)) (numberOfPreviousStatesToKeep example_store)
   \<and> isObject example_heap' (VRef 3)
   \<and> previousStates (fst (snd (snd (setStoreState (VRef 3) example_heap' example_store))))
        = [VRef 14, VRef 9]
   \<and> view 2 (fst (snd (setStoreState (VRef 3) example_heap' example_store))) (VRef 14)
        = view 2 example_heap' (VRef 4)"
proof -
  have r: "setStoreState (VRef 3) example_heap' example_store =
     (fst (setStoreState (VRef 3) example_heap' example_store),
      fst (snd (setStoreState (VRef 3) example_heap' example_store)),
      fst (snd (snd (setStoreState (VRef 3) example_heap' example_store))),
      snd (snd (snd (setStoreState (VRef 3) example_heap' example_store))))"
    by simp
  from history_bounded_and_headed[OF reachable_example, of "VRef 3"
      "fst (setStoreState (VRef 3) example_heap' example_store)"
      "fst (snd (setStoreState (VRef 3) example_heap' example_store))"
      "fst (snd (snd (setStoreState (VRef 3) example_heap' example_store)))"
      "snd (snd (snd (setStoreState (VRef 3) example_heap' example_store)))" 2]
    r isObject_example reachable_example
  show ?thesis
    by (simp add: example_update_history example_store_fields)
qed



section \<open>The store after construction\<close>

lemma cap_ok_not_gt_one: "cap_ok n \<Longrightarrow> \<not> js_gt (Fin 1) n"
  by (simp add: cap_ok_def js_gt_def)

text \<open>
  C5.  When the constructor returns a store (in a well-formed heap), the state object holds
  the own properties of \<^verbatim>\<open>initialState\<close> merged onto the empty object, which are just those
  properties; \<^verbatim>\<open>previousStates\<close> has exactly one entry, a copy of the empty state;
  \<^verbatim>\<open>subscribers\<close> is empty; and the store, the heap and the output are those of one call of
  \<^verbatim>\<open>setStoreState\<close> on a store with empty state, no history and no subscribers.
\<close>

theorem constructor_initial_state:
  assumes "wf_heap h"
    and "Store_constructor ext a_name a_init a_log a_n h = (Inr s, h', evs)"
  shows "state s < length h'
       \<and> h' ! state s = Obj (assign_props [] (initial_props h a_init))
       \<and> assign_props [] (initial_props h a_init) = initial_props h a_init
       \<and> (\<exists>c. previousStates s = [VRef c] \<and> c < length h' \<and> h' ! c = Obj [])
       \<and> subscribers s = []
       \<and> (\<exists>h0 v0 blank. previousStates blank = [] \<and> subscribers blank = []
             \<and> state blank < length h0 \<and> h0 ! state blank = Obj []
             \<and> setStoreState v0 h0 blank = (None, h', s, evs))"
proof -
  from Store_constructor_this[OF assms(2)] obtain h0 v0 blank n where
    r: "setStoreState v0 (h0 @ [Obj []]) blank = (None, h', s, evs)"
    and h0: "h0 = (if a_init = VUndefined then h @ [Obj []] else h)"
    and v0: "v0 = (if a_init = VUndefined then VRef (length h) else a_init)"
    and io: "isObject h0 v0"
    and n: "\<not> isNaN n" "\<not> js_lt n (Fin 1)"
    and bl: "blank = \<lparr>name = string_of a_name, state = length h0, previousStates = [],
                  subscribers = [],
                  logStateToConsole = bool_of (if a_log = VUndefined then VBool False else a_log),
                  numberOfPreviousStatesToKeep = n\<rparr>"
    by blast
  have b: "state blank = length h0" "previousStates blank = []" "subscribers blank = []"
      "numberOfPreviousStatesToKeep blank = n"
    by (simp_all add: bl)
  from io obtain src where src: "v0 = VRef src" "src < length h0"
    using isObject_ref by blast
  let ?H = "h0 @ [Obj []]"
  have ioH: "isObject ?H (VRef src)" using io src(1) isObject_append by blast
  have stH: "isObject ?H (VRef (state blank))" by (simp add: b isObject_fresh)
  note eff = setStoreState_effect(1,2)[OF ioH stH r[unfolded src(1)]]
  note fld = setStoreState_fields[OF r]
  have cap: "cap_ok (numberOfPreviousStatesToKeep blank)"
    using n by (simp add: b cap_ok_def)
  have ps: "previousStates s = [VRef (length h0 + length ?H)]"
    using cap_ok_not_gt_one[OF cap] by (simp add: eff(2) b)
  have props: "props_of (h0 ! src) = initial_props h a_init"
    using v0 src(1) by (cases "a_init = VUndefined") (auto simp: h0 initial_props_def)
  have h': "h' = (?H @ map (shift_obj (length ?H)) ?H)
                   [length h0 := Obj (assign_props [] (initial_props h a_init))]"
    using src(2) props by (simp add: eff(1) b nth_append)
  have st: "state s = length h0" using fld by (simp add: b)
  have 1: "state s < length h'" by (simp add: st h')
  have 2: "h' ! state s = Obj (assign_props [] (initial_props h a_init))"
    by (simp add: st h')
  have "wf_heap h0" using assms(1) by (simp add: h0 wf_heap_append)
  from wf_heap_nth[OF this src(2)] io src(1) have "distinct (map fst (props_of (h0 ! src)))"
    by (cases "h0 ! src") (simp_all add: isObject_def)
  then have 3: "assign_props [] (initial_props h a_init) = initial_props h a_init"
    unfolding props by (rule assign_props_empty)
  have "h' ! (length h0 + length ?H) = Obj []"
    by (simp add: h' nth_append)
  moreover have "length h0 + length ?H < length h'" by (simp add: h')
  ultimately have 4: "\<exists>c. previousStates s = [VRef c] \<and> c < length h' \<and> h' ! c = Obj []"
    using ps by blast
  have 5: "subscribers s = []" by (rule Store_constructor_subscribers[OF assms(2)])
  have "previousStates blank = [] \<and> subscribers blank = []
             \<and> state blank < length ?H \<and> ?H ! state blank = Obj []
             \<and> setStoreState v0 ?H blank = (None, h', s, evs)"
    using r by (simp add: b)
  then have 6: "\<exists>h0 v0 blank. previousStates blank = [] \<and> subscribers blank = []
             \<and> state blank < length h0 \<and> h0 ! state blank = Obj []
             \<and> setStoreState v0 h0 blank = (None, h', s, evs)"
    by blast
  from 1 2 3 4 5 6 show ?thesis by blast
qed

theorem constructor_initial_state_witness:
  "wf_heap example_heap
   \<and> Store_constructor example_ext (VStr ''counter'') (VRef 0) VUndefined VUndefined example_heap
        = (Inr example_store, example_heap', [])
   \<and> example_heap' ! state example_store = Obj [(''count'', VNum (Fin 0))]
   \<and> initial_props example_heap (VRef 0) = [(''count'', VNum (Fin 0))]
   \<and> previousStates example_store = [VRef 9]
   \<and> example_heap' ! 9 = Obj []
   \<and> subscribers example_store = []"
  using constructor_initial_state[OF wf_example_heap example_constructed[of example_ext]]
    wf_example_heap example_constructed[of example_ext]
  by (simp add: example_store_fields initial_props_def example_heap_def example_heap'_def)

section \<open>Mutation and notification\<close>

lemma capped_kept:
  assumes "cap_ok n"
  shows "(if js_gt (Fin (of_nat (length ps))) n then slice0 ps n else ps)
           = take (kept n (length ps)) ps"
proof (cases n)
  case NaN
  with assms show ?thesis by (simp add: cap_ok_def isNaN_def)
next
  case PosInf
  then show ?thesis by (simp add: js_gt_def)
next
  case NegInf
  with assms show ?thesis by (simp add: cap_ok_def)
next
  case (Fin r)
  with assms have r: "1 \<le> r" by (simp add: cap_ok_def)
  show ?thesis
  proof (cases "r < of_nat (length ps)")
    case True
    from r have "0 \<le> \<lfloor>r\<rfloor>" by simp
    with r True Fin show ?thesis
      by (simp add: js_gt_def slice0_def Let_def min_def)
  next
    case False
    then have "of_nat (length ps) \<le> r" by simp
    then have "int (length ps) \<le> \<lfloor>r\<rfloor>" by (simp add: le_floor_iff)
    then have "length ps \<le> nat \<lfloor>r\<rfloor>" by linarith
    with False Fin show ?thesis by (simp add: js_gt_def)
  qed
qed

lemma kept_positive:
  assumes "cap_ok n" and "0 < m"
  shows "0 < kept n m"
proof (cases n)
  case (Fin r)
  with assms(1) have "1 \<le> r" by (simp add: cap_ok_def)
  then have "1 \<le> \<lfloor>r\<rfloor>" by simp
  with Fin assms(2) show ?thesis by simp
qed (use assms in \<open>simp_all add: cap_ok_def isNaN_def\<close>)

lemma kept_full:
  assumes "cap_ok n" and "within_cap m n" and "\<not> within_cap (Suc m) n"
  shows "kept n (Suc m) = m" and "0 < m"
proof -
  from assms obtain r where n: "n = Fin r" by (cases n) simp_all
  with assms have r: "1 \<le> r" "of_nat m \<le> r" "r < of_nat (Suc m)"
    by (simp_all add: cap_ok_def)
  from r(2) have "int m \<le> \<lfloor>r\<rfloor>" by (simp add: le_floor_iff)
  moreover from r(3) have "\<lfloor>r\<rfloor> < int (Suc m)" by (simp add: floor_less_iff)
  ultimately have fl: "\<lfloor>r\<rfloor> = int m" by simp
  then show "kept n (Suc m) = m" by (simp add: n)
  from r(1) have "1 \<le> \<lfloor>r\<rfloor>" by simp
  with fl show "0 < m" by simp
qed

lemma notified_append: "notified (xs @ ys) = notified xs @ notified ys"
  by (induction xs rule: notified.induct) simp_all

lemma notified_map: "notified (map (\<lambda>sub. SetStateCall sub k s h) subs) = subs"
  by (induction subs) simp_all

lemma notified_doLog: "notified (doLogStateToConsole s) = []"
  by (simp add: doLogStateToConsole_def)

lemma subseq_tl: "subseq (tl xs) xs"
  by (cases xs) (auto intro: list_emb_Cons)

lemma subseq_drop: "subseq xs ys \<Longrightarrow> subseq (drop m xs) (drop m ys)"
proof (induction arbitrary: m rule: list_emb.induct)
  case (list_emb_Nil ys)
  then show ?case by simp
next
  case (list_emb_Cons xs ys y)
  show ?case
  proof (cases m)
    case 0
    with list_emb_Cons.hyps show ?thesis by (auto intro: list_emb.list_emb_Cons)
  next
    case (Suc j)
    have "subseq (drop (Suc j) xs) (drop j xs)"
      using subseq_tl[of "drop j xs"] by (simp add: drop_Suc tl_drop)
    also have "subseq (drop j xs) (drop j ys)" by (rule list_emb_Cons.IH)
    finally show ?thesis using Suc by simp
  qed
next
  case (list_emb_Cons2 x y xs ys)
  show ?case
  proof (cases m)
    case 0
    with list_emb_Cons2.hyps show ?thesis by simp
  next
    case (Suc j)
    with list_emb_Cons2.IH[of j] show ?thesis by simp
  qed
qed

lemma call_setState_events:
  assumes "call_setState h s sub = (e, s', evs)"
  shows "evs = (if has_callable_setState h sub then [SetStateCall sub (name s) s h] else [])"
    and "e = None \<or> e = Some TypeError \<or> (\<exists>i. e = Some (CallbackThrew i))"
proof -
  show "evs = (if has_callable_setState h sub then [SetStateCall sub (name s) s h] else [])"
    using assms
    by (cases "has_callable_setState h sub")
       (auto simp: call_setState_not_callable has_callable_setState_iff call_setState_callable)
  show "e = None \<or> e = Some TypeError \<or> (\<exists>i. e = Some (CallbackThrew i))"
    using assms
    by (cases "has_callable_setState h sub")
       (auto simp: call_setState_not_callable has_callable_setState_iff call_setState_callable
             split: if_splits)
qed

lemma notify_loop_step:
  assumes "k < length (subscribers s)"
    and "call_setState h s (subscribers s ! k) = (e1, s1, evs1)"
  shows "notify_loop (Suc n) k h s =
           (if e1 = None
            then (fst (notify_loop n (Suc k) h s1), fst (snd (notify_loop n (Suc k) h s1)),
                  evs1 @ snd (snd (notify_loop n (Suc k) h s1)))
            else (e1, s1, evs1))"
  using assms by (cases e1) (simp_all split: prod.splits)

lemma notify_loop_subseq:
  "notify_loop n k h s = (e, s', evs) \<Longrightarrow> subseq (notified evs) (drop k (subscribers s))"
proof (induction n arbitrary: k s e s' evs)
  case 0
  then show ?case by simp
next
  case (Suc n)
  show ?case
  proof (cases "k < length (subscribers s)")
    case False
    with Suc.prems have "notify_loop n (Suc k) h s = (e, s', evs)" by simp
    from Suc.IH[OF this] False show ?thesis by simp
  next
    case True
    let ?sub = "subscribers s ! k"
    obtain e1 s1 evs1 where c: "call_setState h s ?sub = (e1, s1, evs1)"
      by (metis prod_cases3)
    from call_setState_events(1)[OF c] have n1: "notified evs1 = [] \<or> notified evs1 = [?sub]"
      by (simp split: if_splits)
    have dk: "drop k (subscribers s) = ?sub # drop (Suc k) (subscribers s)"
      using True by (simp add: Cons_nth_drop_Suc)
    obtain e2 s2 evs2 where l: "notify_loop n (Suc k) h s1 = (e2, s2, evs2)"
      by (metis prod_cases3)
    have "subseq (drop (Suc k) (subscribers s1)) (drop (Suc k) (subscribers s))"
      by (rule subseq_drop[OF only_unsubscribed_fields(6)[OF call_setState_only[OF c]]])
    with Suc.IH[OF l] have 2: "subseq (notified evs2) (drop (Suc k) (subscribers s))"
      using subseq_order.trans by blast
    from Suc.prems have "evs = (if e1 = None then evs1 @ evs2 else evs1)"
      unfolding notify_loop_step[OF True c] by (auto simp: l split: if_splits)
    then have "notified evs = notified evs1 @ notified (if e1 = None then evs2 else [])"
      by (simp add: notified_append)
    moreover have "subseq (notified (if e1 = None then evs2 else [])) (drop (Suc k) (subscribers s))"
      using 2 by simp
    ultimately show ?thesis using n1 unfolding dk by auto
  qed
qed

lemma notify_loop_events:
  "notify_loop n k h s = (e, s', evs) \<Longrightarrow> ev \<in> set evs \<Longrightarrow>
     \<exists>sub st. ev = SetStateCall sub (name s) st h \<and> only_unsubscribed s st"
proof (induction n arbitrary: k s e s' evs)
  case 0
  then show ?case by simp
next
  case (Suc n)
  show ?case
  proof (cases "k < length (subscribers s)")
    case False
    with Suc.prems have "notify_loop n (Suc k) h s = (e, s', evs)" by simp
    from Suc.IH[OF this Suc.prems(2)] show ?thesis .
  next
    case True
    let ?sub = "subscribers s ! k"
    obtain e1 s1 evs1 where c: "call_setState h s ?sub = (e1, s1, evs1)"
      by (metis prod_cases3)
    note o1 = call_setState_only[OF c]
    obtain e2 s2 evs2 where l: "notify_loop n (Suc k) h s1 = (e2, s2, evs2)"
      by (metis prod_cases3)
    from Suc.prems(1) have "evs = (if e1 = None then evs1 @ evs2 else evs1)"
      unfolding notify_loop_step[OF True c] by (auto simp: l split: if_splits)
    with Suc.prems(2) consider "ev \<in> set evs1" | "ev \<in> set evs2"
      by (auto split: if_splits)
    then show ?thesis
    proof cases
      case 1
      with call_setState_events(1)[OF c] have "ev = SetStateCall ?sub (name s) s h"
        by (simp split: if_splits)
      then show ?thesis using only_unsubscribed_refl by blast
    next
      case 2
      from Suc.IH[OF l 2] obtain sub st where
        "ev = SetStateCall sub (name s1) st h" "only_unsubscribed s1 st" by blast
      with only_unsubscribed_trans[OF o1] only_unsubscribed_fields(1)[OF o1]
      show ?thesis by auto
    qed
  qed
qed

lemma notify_loop_error:
  "notify_loop n k h s = (e, s', evs) \<Longrightarrow>
     e = None \<or> e = Some TypeError \<or> (\<exists>i. e = Some (CallbackThrew i))"
proof (induction n arbitrary: k s e s' evs)
  case 0
  then show ?case by simp
next
  case (Suc n)
  show ?case
  proof (cases "k < length (subscribers s)")
    case False
    with Suc.prems have "notify_loop n (Suc k) h s = (e, s', evs)" by simp
    from Suc.IH[OF this] show ?thesis .
  next
    case True
    obtain e1 s1 evs1 where c: "call_setState h s (subscribers s ! k) = (e1, s1, evs1)"
      by (metis prod_cases3)
    obtain e2 s2 evs2 where l: "notify_loop n (Suc k) h s1 = (e2, s2, evs2)"
      by (metis prod_cases3)
    from Suc.prems have "e = (if e1 = None then e2 else e1)"
      unfolding notify_loop_step[OF True c] by (auto simp: l split: if_splits)
    with call_setState_events(2)[OF c] Suc.IH[OF l] show ?thesis by auto
  qed
qed

lemma notify_loop_returning:
  assumes "\<forall>sub \<in> set pre. callback_returns h sub" and "subscribers s = pre @ rest"
    and "k \<le> length pre"
  shows "notify_loop (length pre - k + m) k h s =
     (fst (notify_loop m (length pre) h s), fst (snd (notify_loop m (length pre) h s)),
      map (\<lambda>sub. SetStateCall sub (name s) s h) (drop k pre)
        @ snd (snd (notify_loop m (length pre) h s)))"
  using assms(3)
proof (induction "length pre - k" arbitrary: k)
  case 0
  then show ?case by simp
next
  case (Suc j)
  then have k: "k < length pre" and j: "j = length pre - Suc k" by simp_all
  from k assms(2) have lt: "k < length (subscribers s)" and nth: "subscribers s ! k = pre ! k"
    by (simp_all add: nth_append)
  from k assms(1) have "callback_returns h (pre ! k)" by simp
  then have c: "call_setState h s (subscribers s ! k)
                  = (None, s, [SetStateCall (pre ! k) (name s) s h])"
    by (simp add: nth call_setState_returns)
  have n: "length pre - k + m = Suc (length pre - Suc k + m)" using k by simp
  have d: "drop k pre = pre ! k # drop (Suc k) pre" using k by (simp add: Cons_nth_drop_Suc)
  from Suc.hyps(1)[OF j] k
  have "notify_loop (length pre - Suc k + m) (Suc k) h s =
     (fst (notify_loop m (length pre) h s), fst (snd (notify_loop m (length pre) h s)),
      map (\<lambda>sub. SetStateCall sub (name s) s h) (drop (Suc k) pre)
        @ snd (snd (notify_loop m (length pre) h s)))"
    by simp
  then show ?case unfolding n notify_loop_step[OF lt c] d by simp
qed

lemma notify_all_return:
  assumes "\<forall>sub \<in> set (subscribers s). callback_returns h sub"
  shows "notify h s = (None, s, map (\<lambda>sub. SetStateCall sub (name s) s h) (subscribers s))"
  using notify_loop_returning[OF assms, where s = s and rest = "[]" and k = 0 and m = 0]
  by (simp add: notify_def)

lemma notify_throws:
  assumes "subscribers s = pre @ sk # post" and "\<forall>sub \<in> set pre. callback_returns h sub"
    and "get_setState h sk = Some (VFun i b)" and "throws b"
  shows "notify h s = (Some (CallbackThrew i), snd (react b s),
                        map (\<lambda>sub. SetStateCall sub (name s) s h) (pre @ [sk]))"
proof -
  have lt: "length pre < length (subscribers s)" and nth: "subscribers s ! length pre = sk"
    by (simp_all add: assms(1))
  have c: "call_setState h s (subscribers s ! length pre)
             = (Some (CallbackThrew i), snd (react b s), [SetStateCall sk (name s) s h])"
    using assms(3,4) by (simp add: nth call_setState_callable)
  have "notify h s = notify_loop (length pre - 0 + Suc (length post)) 0 h s"
    by (simp add: notify_def assms(1))
  also note notify_loop_returning[OF assms(2,1), where k = 0 and m = "Suc (length post)"]
  finally show ?thesis unfolding notify_loop_step[OF lt c] by simp
qed

lemma notify_not_callable:
  assumes "subscribers s = pre @ sk # post" and "\<forall>sub \<in> set pre. callback_returns h sub"
    and "\<not> has_callable_setState h sk"
  shows "notify h s = (Some TypeError, s, map (\<lambda>sub. SetStateCall sub (name s) s h) pre)"
proof -
  have lt: "length pre < length (subscribers s)" and nth: "subscribers s ! length pre = sk"
    by (simp_all add: assms(1))
  have c: "call_setState h s (subscribers s ! length pre) = (Some TypeError, s, [])"
    using assms(3) by (simp add: nth call_setState_not_callable)
  have "notify h s = notify_loop (length pre - 0 + Suc (length post)) 0 h s"
    by (simp add: notify_def assms(1))
  also note notify_loop_returning[OF assms(2,1), where k = 0 and m = "Suc (length post)"]
  finally show ?thesis unfolding notify_loop_step[OF lt c] by simp
qed

lemma setStoreState_merge:
  assumes "store_inv (h, s)" and "isObject h (VRef src)"
    and "setStoreState (VRef src) h s = (e, h', s', evs)"
  shows "map_of (props_of (h' ! state s))
           = map_of (props_of (h ! state s)) ++ map_of (props_of (h ! src))"
    and "\<And>a. a < length h \<Longrightarrow> a \<noteq> state s \<Longrightarrow> h' ! a = h ! a"
    and "h' ! state s = Obj (assign_props (props_of (h ! state s)) (props_of (h ! src)))"
proof -
  from assms(1) have wf: "wf_heap h" and st: "isObject h (VRef (state s))"
    by (simp_all add: store_inv_def)
  from st assms(2) have lt: "state s < length h" "src < length h"
    by (simp_all add: isObject_def)
  note eff = setStoreState_effect(1)[OF assms(2) st assms(3)]
  show 3: "h' ! state s = Obj (assign_props (props_of (h ! state s)) (props_of (h ! src)))"
    using lt by (simp add: eff)
  from wf_heap_nth[OF wf lt(2)] assms(2) have "distinct (map fst (props_of (h ! src)))"
    by (cases "h ! src") (simp_all add: isObject_def)
  then show "map_of (props_of (h' ! state s))
           = map_of (props_of (h ! state s)) ++ map_of (props_of (h ! src))"
    by (simp add: 3 map_of_assign_props)
  show "h' ! a = h ! a" if "a < length h" "a \<noteq> state s" for a
    using that by (simp add: eff nth_append)
qed

lemma setStoreState_history:
  assumes "store_inv (h, s)" and "isObject h (VRef src)"
    and "setStoreState (VRef src) h s = (e, h', s', evs)"
  shows "previousStates s' =
           take (kept (numberOfPreviousStatesToKeep s) (Suc (length (previousStates s))))
             (hd (previousStates s') # previousStates s)"
    and "0 < kept (numberOfPreviousStatesToKeep s) (Suc (length (previousStates s)))"
    and "within_cap (Suc (length (previousStates s))) (numberOfPreviousStatesToKeep s) \<Longrightarrow>
           previousStates s' = hd (previousStates s') # previousStates s"
    and "\<not> within_cap (Suc (length (previousStates s))) (numberOfPreviousStatesToKeep s) \<Longrightarrow>
           previousStates s' = hd (previousStates s') # butlast (previousStates s)"
proof -
  let ?c = "VRef (state s + length h)"
  let ?n = "numberOfPreviousStatesToKeep s"
  from assms(1) have st: "isObject h (VRef (state s))" and cap: "cap_ok ?n"
    and wc: "within_cap (length (previousStates s)) ?n"
    by (simp_all add: store_inv_def)
  note i = setStoreState_inv(3)[OF assms]
  from setStoreState_effect(2)[OF assms(2) st assms(3)]
    capped_kept[OF cap, of "?c # previousStates s"]
  have t: "previousStates s' = take (kept ?n (Suc (length (previousStates s)))) (?c # previousStates s)"
    by simp
  with i show 1: "previousStates s' =
           take (kept ?n (Suc (length (previousStates s)))) (hd (previousStates s') # previousStates s)"
    by simp
  show "0 < kept ?n (Suc (length (previousStates s)))"
    by (rule kept_positive[OF cap]) simp
  show "previousStates s' = hd (previousStates s') # previousStates s"
    if "within_cap (Suc (length (previousStates s))) ?n"
  proof -
    from that have "kept ?n (Suc (length (previousStates s))) = Suc (length (previousStates s))"
      by (cases ?n) (simp_all add: le_floor_iff le_nat_iff min_def)
    with t i show ?thesis by simp
  qed
  show "previousStates s' = hd (previousStates s') # butlast (previousStates s)"
    if "\<not> within_cap (Suc (length (previousStates s))) ?n"
  proof -
    from kept_full[OF cap wc that] obtain j where
      k: "kept ?n (Suc (length (previousStates s))) = Suc j" and j: "length (previousStates s) = Suc j"
      by (cases "length (previousStates s)") simp_all
    have "take j (previousStates s) = butlast (previousStates s)"
      using j by (simp add: butlast_conv_take)
    with t i k show ?thesis by simp
  qed
qed

lemma setStoreState_events:
  assumes "store_inv (h, s)" and "isObject h (VRef src)"
    and "setStoreState (VRef src) h s = (e, h', s', evs)"
  shows "subseq (notified evs) (subscribers s)"
    and "\<And>ev. ev \<in> set evs \<Longrightarrow>
           ev = ConsoleLog (name s) (VRef (state s))
           \<or> (\<exists>sub st. ev = SetStateCall sub (name s) st h'
                 \<and> only_unsubscribed (s\<lparr>previousStates := previousStates s'\<rparr>) st)"
    and "only_unsubscribed (s\<lparr>previousStates := previousStates s'\<rparr>) s'"
    and "ConsoleLog (name s) (VRef (state s)) \<in> set evs \<longleftrightarrow> e = None \<and> logStateToConsole s"
    and "e = None \<or> e = Some TypeError \<or> (\<exists>i. e = Some (CallbackThrew i))"
    and "\<forall>sub \<in> set (subscribers s). callback_returns h' sub \<Longrightarrow>
           e = None \<and> s' = s\<lparr>previousStates := previousStates s'\<rparr>
           \<and> evs = map (\<lambda>sub. SetStateCall sub (name s) s' h') (subscribers s)
                 @ (if logStateToConsole s then [ConsoleLog (name s) (VRef (state s))] else [])"
    and "subscribers s = pre @ sk # post \<Longrightarrow> \<forall>sub \<in> set pre. callback_returns h' sub \<Longrightarrow>
           get_setState h' sk = Some (VFun i b) \<Longrightarrow> throws b \<Longrightarrow>
           e = Some (CallbackThrew i)
           \<and> s' = snd (react b (s\<lparr>previousStates := previousStates s'\<rparr>))
           \<and> evs = map (\<lambda>sub. SetStateCall sub (name s) (s\<lparr>previousStates := previousStates s'\<rparr>) h')
                     (pre @ [sk])"
    and "subscribers s = pre @ sk # post \<Longrightarrow> \<forall>sub \<in> set pre. callback_returns h' sub \<Longrightarrow>
           \<not> has_callable_setState h' sk \<Longrightarrow>
           e = Some TypeError \<and> s' = s\<lparr>previousStates := previousStates s'\<rparr>
           \<and> evs = map (\<lambda>sub. SetStateCall sub (name s) s' h') pre"
proof -
  from assms(1) have st: "isObject h (VRef (state s))" by (simp add: store_inv_def)
  note eff = setStoreState_effect[OF assms(2) st assms(3)]
  define s1 where "s1 = s\<lparr>previousStates := previousStates s'\<rparr>"
  define evs0 where "evs0 = snd (snd (notify h' (snd (addCurrentStateToPreviousStates h s))))"
  have a: "snd (addCurrentStateToPreviousStates h s) = s1"
    by (simp add: s1_def eff(2) addCurrentStateToPreviousStates_eq)
  have N: "notify h' s1 = (e, s', evs0)"
    using eff(3,4) by (simp add: evs0_def a prod_eq_iff)
  have ev: "evs = evs0 @ (if e = None then doLogStateToConsole s' else [])"
    using eff(5) by (simp add: evs0_def)
  have f1: "name s1 = name s" "state s1 = state s" "subscribers s1 = subscribers s"
    "logStateToConsole s1 = logStateToConsole s"
    by (simp_all add: s1_def)
  have o: "only_unsubscribed s1 s'" by (rule notify_only[OF N])
  note f' = only_unsubscribed_fields[OF o]
  have log: "doLogStateToConsole s'
               = (if logStateToConsole s then [ConsoleLog (name s) (VRef (state s))] else [])"
    by (simp add: doLogStateToConsole_def f' f1)
  have "notified evs = notified evs0"
    by (subst ev) (simp add: notified_append notified_doLog)
  moreover have "subseq (notified evs0) (subscribers s)"
    using notify_loop_subseq[OF N[unfolded notify_def]] by (simp add: f1)
  ultimately show "subseq (notified evs) (subscribers s)" by simp
  have nev: "\<exists>sub st. x = SetStateCall sub (name s) st h' \<and> only_unsubscribed s1 st"
    if "x \<in> set evs0" for x
    using notify_loop_events[OF N[unfolded notify_def] that] by (simp add: f1)
  show "ev = ConsoleLog (name s) (VRef (state s))
           \<or> (\<exists>sub st. ev = SetStateCall sub (name s) st h'
                 \<and> only_unsubscribed (s\<lparr>previousStates := previousStates s'\<rparr>) st)"
    if "ev \<in> set evs" for ev
  proof -
    from that ev have "ev \<in> set evs0 \<or> ev \<in> set (doLogStateToConsole s')"
      by (auto split: if_splits)
    then show ?thesis
    proof
      assume "ev \<in> set evs0"
      from nev[OF this] show ?thesis unfolding s1_def by blast
    next
      assume "ev \<in> set (doLogStateToConsole s')"
      then show ?thesis by (simp add: log split: if_splits)
    qed
  qed
  show "only_unsubscribed (s\<lparr>previousStates := previousStates s'\<rparr>) s'"
    using o unfolding s1_def .
  have "ConsoleLog (name s) (VRef (state s)) \<notin> set evs0"
    using nev by blast
  with ev show "ConsoleLog (name s) (VRef (state s)) \<in> set evs \<longleftrightarrow> e = None \<and> logStateToConsole s"
    by (auto simp: log split: if_splits)
  show "e = None \<or> e = Some TypeError \<or> (\<exists>i. e = Some (CallbackThrew i))"
    by (rule notify_loop_error[OF N[unfolded notify_def]])
  show "e = None \<and> s' = s\<lparr>previousStates := previousStates s'\<rparr>
           \<and> evs = map (\<lambda>sub. SetStateCall sub (name s) s' h') (subscribers s)
                 @ (if logStateToConsole s then [ConsoleLog (name s) (VRef (state s))] else [])"
    if "\<forall>sub \<in> set (subscribers s). callback_returns h' sub"
  proof -
    from that have "\<forall>sub \<in> set (subscribers s1). callback_returns h' sub" by (simp add: f1)
    from notify_all_return[OF this] N have
      r: "e = None" "s' = s1" "evs0 = map (\<lambda>sub. SetStateCall sub (name s) s1 h') (subscribers s)"
      by (simp_all add: f1)
    from r(2) have "s' = s\<lparr>previousStates := previousStates s'\<rparr>" by (simp add: s1_def)
    moreover have "evs = map (\<lambda>sub. SetStateCall sub (name s) s' h') (subscribers s)
                 @ (if logStateToConsole s then [ConsoleLog (name s) (VRef (state s))] else [])"
      unfolding ev log r(3) using r(1,2) by simp
    ultimately show ?thesis using r(1) by simp
  qed
  show "e = Some (CallbackThrew i)
           \<and> s' = snd (react b (s\<lparr>previousStates := previousStates s'\<rparr>))
           \<and> evs = map (\<lambda>sub. SetStateCall sub (name s) (s\<lparr>previousStates := previousStates s'\<rparr>) h')
                     (pre @ [sk])"
    if "subscribers s = pre @ sk # post" "\<forall>sub \<in> set pre. callback_returns h' sub"
      "get_setState h' sk = Some (VFun i b)" "throws b"
  proof -
    from that(1) have "subscribers s1 = pre @ sk # post" by (simp add: f1)
    from notify_throws[OF this that(2,3,4)] N have
      r: "e = Some (CallbackThrew i)" "s' = snd (react b s1)"
         "evs0 = map (\<lambda>sub. SetStateCall sub (name s) s1 h') (pre @ [sk])"
      by (simp_all add: f1)
    from r(1) ev have "evs = evs0" by simp
    with r show ?thesis unfolding s1_def by simp
  qed
  show "e = Some TypeError \<and> s' = s\<lparr>previousStates := previousStates s'\<rparr>
           \<and> evs = map (\<lambda>sub. SetStateCall sub (name s) s' h') pre"
    if "subscribers s = pre @ sk # post" "\<forall>sub \<in> set pre. callback_returns h' sub"
      "\<not> has_callable_setState h' sk"
  proof -
    from that(1) have "subscribers s1 = pre @ sk # post" by (simp add: f1)
    from notify_not_callable[OF this that(2,3)] N have
      r: "e = Some TypeError" "s' = s1"
         "evs0 = map (\<lambda>sub. SetStateCall sub (name s) s1 h') pre"
      by (simp_all add: f1)
    from r(1) ev have "evs = evs0" by simp
    moreover from r(2) have "s' = s\<lparr>previousStates := previousStates s'\<rparr>" by (simp add: s1_def)
    ultimately show ?thesis using r by simp
  qed
qed

lemma reachable_example_subscribed: "reachable (example_heap', example_store_subscribed)"
proof -
  have c1: "has_callable_setState example_heap' (VRef 1)"
    and c2: "has_callable_setState example_heap' (VRef 2)"
    by (simp_all add: has_callable_setState_def get_setState_def isFunction_def example_heap'_def)
  have "reachable (perform (Subscribe (VRef 1)) (example_heap', example_store))"
    by (rule reachable.performed[OF reachable_example]) (simp add: example_heap'_def)
  then have 1: "reachable (example_heap', example_store\<lparr>subscribers := [VRef 1]\<rparr>)"
    using c1 by (simp add: subscribe_cases has_callable_setState_def example_store_fields
        split: option.splits)
  have "reachable (perform (Subscribe (VRef 2)) (example_heap', example_store\<lparr>subscribers := [VRef 1]\<rparr>))"
    by (rule reachable.performed[OF 1]) (simp add: example_heap'_def)
  then show ?thesis
    using c2 by (simp add: subscribe_cases has_callable_setState_def strict_eq_def
        example_store_subscribed_def split: option.splits)
qed

lemma example_subscribed_fields:
  "state example_store_subscribed = 4" "previousStates example_store_subscribed = [VRef 9]"
  "subscribers example_store_subscribed = [VRef 1, VRef 2]"
  "name example_store_subscribed = ''counter''"
  "logStateToConsole example_store_subscribed = False"
  "numberOfPreviousStatesToKeep example_store_subscribed = Fin 15"
  by (simp_all add: example_store_subscribed_def example_store_def)

lemma example_subscribed_update:
  "fst (setStoreState (VRef 3) example_heap' example_store_subscribed) = Some (CallbackThrew 0)"
  "notified (snd (snd (snd (setStoreState (VRef 3) example_heap' example_store_subscribed))))
     = [VRef 1]"
  by (simp_all add: validateNewState_def isObject_def setStoreState_def notify_def
      call_setState_def addCurrentStateToPreviousStates_def clone_def js_gt_def
      example_store_subscribed_def example_store_def Object_assign_def get_setState_def
      example_heap'_def Let_def)

lemma wf_example_heap_leaving: "wf_heap example_heap_leaving"
  by (simp add: wf_heap_def example_heap_leaving_def)

lemma example_constructed_leaving:
  "Store_constructor ext (VStr ''counter'') (VRef 0) VUndefined VUndefined example_heap_leaving
     = (Inr example_store, example_heap_leaving', [])"
  by (simp add: Store_constructor_def validateArguments_def validateNewState_def isObject_def
      isNaN_def setStoreState_def addCurrentStateToPreviousStates_def clone_def notify_def
      Object_assign_def js_gt_def doLogStateToConsole_def example_heap_leaving_def
      example_store_def example_heap_leaving'_def)

lemma reachable_example_leaving: "reachable (example_heap_leaving', example_store_subscribed)"
proof -
  have c1: "has_callable_setState example_heap_leaving' (VRef 1)"
    and c2: "has_callable_setState example_heap_leaving' (VRef 2)"
    by (simp_all add: has_callable_setState_def get_setState_def isFunction_def
        example_heap_leaving'_def)
  have 0: "reachable (example_heap_leaving', example_store)"
    by (rule reachable.constructed[OF wf_example_heap_leaving _ example_constructed_leaving])
       (simp add: example_heap_leaving_def)
  have "reachable (perform (Subscribe (VRef 1)) (example_heap_leaving', example_store))"
    by (rule reachable.performed[OF 0]) (simp add: example_heap_leaving'_def)
  then have 1: "reachable (example_heap_leaving', example_store\<lparr>subscribers := [VRef 1]\<rparr>)"
    using c1 by (simp add: subscribe_cases has_callable_setState_def example_store_fields
        split: option.splits)
  have "reachable (perform (Subscribe (VRef 2))
          (example_heap_leaving', example_store\<lparr>subscribers := [VRef 1]\<rparr>))"
    by (rule reachable.performed[OF 1]) (simp add: example_heap_leaving'_def)
  then show ?thesis
    using c2 by (simp add: subscribe_cases has_callable_setState_def strict_eq_def
        example_store_subscribed_def split: option.splits)
qed

lemma isObject_example_leaving:
  "isObject example_heap_leaving' (VRef 3)" "isObject example_heap_leaving' (VRef 0)"
  by (simp_all add: isObject_def example_heap_leaving'_def)

lemma example_leaving_update:
  "fst (setStoreState (VRef 3) example_heap_leaving' example_store_subscribed) = None"
  "notified (snd (snd (snd (setStoreState (VRef 3) example_heap_leaving' example_store_subscribed))))
     = [VRef 1]"
  "subscribers (fst (snd (snd (setStoreState (VRef 3) example_heap_leaving' example_store_subscribed))))
     = [VRef 2]"
  by (simp_all add: validateNewState_def isObject_def setStoreState_def notify_def
      call_setState_def unsubscribe_def strict_eq_def doLogStateToConsole_def
      addCurrentStateToPreviousStates_def clone_def js_gt_def
      example_store_subscribed_def example_store_def Object_assign_def get_setState_def
      example_heap_leaving'_def Let_def)

lemma wf_example_heap_self: "wf_heap example_heap_self"
  by (simp add: wf_heap_def example_heap_self_def)

lemma example_constructed_self:
  "Store_constructor ext (VStr ''counter'') (VRef 0) VUndefined VUndefined example_heap_self
     = (Inr example_store_self, example_heap_self', [])"
  by (simp add: Store_constructor_def validateArguments_def validateNewState_def isObject_def
      isNaN_def setStoreState_def addCurrentStateToPreviousStates_def clone_def notify_def
      Object_assign_def js_gt_def doLogStateToConsole_def example_heap_self_def
      example_store_self_def example_heap_self'_def)

lemma example_self_fields:
  "state example_store_self = 2" "previousStates example_store_self = [VRef 5]"
  "subscribers example_store_self = []" "name example_store_self = ''counter''"
  "logStateToConsole example_store_self = False"
  "numberOfPreviousStatesToKeep example_store_self = Fin 15"
  "subscribers example_store_self_subscribed = [VRef 2, VRef 0]"
  "subscribers example_store_self_broken = [VRef 2, VRef 0]"
  "state example_store_self_broken = 2"
  "previousStates example_store_self_broken = [VRef 8, VRef 5]"
  by (simp_all add: example_store_self_def example_store_self_subscribed_def
      example_store_self_broken_def)

lemma reachable_example_self: "reachable (example_heap_self', example_store_self_subscribed)"
proof -
  have c1: "has_callable_setState example_heap_self' (VRef 2)"
    and c2: "has_callable_setState example_heap_self' (VRef 0)"
    by (simp_all add: has_callable_setState_def get_setState_def isFunction_def
        example_heap_self'_def)
  have 0: "reachable (example_heap_self', example_store_self)"
    by (rule reachable.constructed[OF wf_example_heap_self _ example_constructed_self])
       (simp add: example_heap_self_def)
  have "reachable (perform (Subscribe (VRef 2)) (example_heap_self', example_store_self))"
    by (rule reachable.performed[OF 0]) (simp add: example_heap_self'_def)
  then have 1: "reachable (example_heap_self', example_store_self\<lparr>subscribers := [VRef 2]\<rparr>)"
    using c1 by (simp add: subscribe_cases has_callable_setState_def example_self_fields
        split: option.splits)
  have "reachable (perform (Subscribe (VRef 0))
          (example_heap_self', example_store_self\<lparr>subscribers := [VRef 2]\<rparr>))"
    by (rule reachable.performed[OF 1]) (simp add: example_heap_self'_def)
  then show ?thesis
    using c2 by (simp add: subscribe_cases has_callable_setState_def strict_eq_def
        example_store_self_subscribed_def split: option.splits)
qed

lemma isObject_example_self:
  "isObject example_heap_self' (VRef 1)" "isObject example_heap_self'' (VRef 1)"
  by (simp_all add: isObject_def example_heap_self'_def example_heap_self''_def)

lemma example_self_update:
  "setStoreState (VRef 1) example_heap_self' example_store_self_subscribed
     = (Some TypeError, example_heap_self'', example_store_self_broken, [])"
  by (simp add: validateNewState_def isObject_def setStoreState_def notify_def
      call_setState_def addCurrentStateToPreviousStates_def clone_def js_gt_def
      example_store_self_subscribed_def example_store_self_def example_store_self_broken_def
      Object_assign_def get_setState_def example_heap_self'_def example_heap_self''_def Let_def)

lemma example_self_not_callable:
  "\<not> has_callable_setState example_heap_self'' (VRef 2)"
  by (simp add: has_callable_setState_def get_setState_def isFunction_def example_heap_self''_def)

lemma reachable_example_self_broken: "reachable (example_heap_self'', example_store_self_broken)"
proof -
  have "reachable (perform (SetStoreState (VRef 1)) (example_heap_self', example_store_self_subscribed))"
    by (rule reachable.performed[OF reachable_example_self]) (simp add: example_heap_self'_def)
  then show ?thesis by (simp add: example_self_update del: One_nat_def)
qed

text \<open>
  C1, as the code has it.  In every store, \<^verbatim>\<open>setStoreState(v)\<close> with a \<open>v\<close> that is no mapping
  object throws and leaves heap and store as they were.  With a mapping object:

  (a) the history afterwards is the new snapshot followed by the old history, cut to the
  first \<open>kept\<close> entries, of which there is at least one: with a bound \<open>n\<close> that is
  \<open>min (length + 1) \<lfloor>n\<rfloor>\<close> entries, so the history is within the bound and the oldest entries
  are the ones lost; the snapshot is deeply equal to the state before the call.

  (b) The properties of the state object are those it had, overridden and extended by those
  of \<open>v\<close>.

  (c) The subscribers called are called in the order of the list of subscribers, none of
  them twice; each call carries the name of the store, and sees the heap as the call of
  \<^verbatim>\<open>setStoreState\<close> leaves it, merged state included, and the store with its new history.
  The call throws nothing, or a TypeError, or what a \<^verbatim>\<open>setState\<close> threw.  When the
  \<^verbatim>\<open>setState\<close> of every subscriber returns and leaves the store alone, all subscribers are
  called, once each, and nothing is thrown.  When those of the subscribers \<open>pre\<close> do so and
  that of the next subscriber \<open>sk\<close> throws, the subscribers called are \<open>pre\<close> and \<open>sk\<close>, and the
  call throws what \<open>sk\<close> threw; when \<open>sk\<close> has no callable \<^verbatim>\<open>setState\<close> any more, the subscribers
  called are \<open>pre\<close>, and the call throws a TypeError.

  (d) The state is logged exactly when nothing was thrown and \<^verbatim>\<open>logStateToConsole\<close> is set,
  after the calls.

  So not every subscriber is called once in every case.  A subscriber whose \<^verbatim>\<open>setState\<close>
  throws ends the calls; so does one whose \<^verbatim>\<open>setState\<close> is no function any more, which can
  be the state object itself; and a \<^verbatim>\<open>setState\<close> that unsubscribes its own component makes
  the loop pass over the subscriber that follows, which is then not called although nothing
  is thrown.
\<close>

theorem mutation_effect_in_order:
  assumes "reachable (h, s)" and "setStoreState v h s = (e, h', s', evs)"
  shows "(\<not> isObject h v \<longrightarrow> e = Some StateMustBeObject \<and> h' = h \<and> s' = s)
   \<and> (isObject h v \<longrightarrow>
         previousStates s' =
           take (kept (numberOfPreviousStatesToKeep s) (Suc (length (previousStates s))))
             (hd (previousStates s') # previousStates s)
       \<and> 0 < kept (numberOfPreviousStatesToKeep s) (Suc (length (previousStates s)))
       \<and> within_cap (length (previousStates s')) (numberOfPreviousStatesToKeep s')
       \<and> view d h' (hd (previousStates s')) = view d h (VRef (state s))
       \<and> (\<exists>src. v = VRef src
             \<and> map_of (props_of (h' ! state s))
                 = map_of (props_of (h ! state s)) ++ map_of (props_of (h ! src)))
       \<and> only_unsubscribed (s\<lparr>previousStates := previousStates s'\<rparr>) s'
       \<and> subseq (notified evs) (subscribers s)
       \<and> distinct (notified evs)
       \<and> (\<forall>ev \<in> set evs. ev = ConsoleLog (name s) (VRef (state s))
             \<or> (\<exists>sub st. ev = SetStateCall sub (name s) st h'
                   \<and> only_unsubscribed (s\<lparr>previousStates := previousStates s'\<rparr>) st))
       \<and> (e = None \<or> e = Some TypeError \<or> (\<exists>i. e = Some (CallbackThrew i)))
       \<and> ((\<forall>sub \<in> set (subscribers s). callback_returns h' sub) \<longrightarrow>
             e = None \<and> subscribers s' = subscribers s \<and> notified evs = subscribers s
             \<and> evs = map (\<lambda>sub. SetStateCall sub (name s) s' h') (subscribers s)
                   @ (if logStateToConsole s then [ConsoleLog (name s) (VRef (state s))] else []))
       \<and> (subscribers s = pre @ sk # post \<and> (\<forall>sub \<in> set pre. callback_returns h' sub) \<longrightarrow>
             (\<forall>i b. get_setState h' sk = Some (VFun i b) \<and> throws b \<longrightarrow>
                e = Some (CallbackThrew i) \<and> notified evs = pre @ [sk]
                \<and> evs = map (\<lambda>sub. SetStateCall sub (name s)
                                (s\<lparr>previousStates := previousStates s'\<rparr>) h') (pre @ [sk]))
           \<and> (\<not> has_callable_setState h' sk \<longrightarrow>
                e = Some TypeError \<and> subscribers s' = subscribers s \<and> notified evs = pre
                \<and> evs = map (\<lambda>sub. SetStateCall sub (name s) s' h') pre))
       \<and> (ConsoleLog (name s) (VRef (state s)) \<in> set evs \<longleftrightarrow> e = None \<and> logStateToConsole s))"
proof (rule conjI; rule impI)
  assume "\<not> isObject h v"
  with assms(2) show "e = Some StateMustBeObject \<and> h' = h \<and> s' = s"
    by (simp add: setStoreState_invalid)
next
  assume io: "isObject h v"
  then obtain src where v: "v = VRef src" using isObject_ref by blast
  from assms(1) have inv: "store_inv (h, s)" using reachable_inv by fastforce
  note i = setStoreState_inv[OF inv io[unfolded v] assms(2)[unfolded v]]
  note m = setStoreState_merge[OF inv io[unfolded v] assms(2)[unfolded v]]
  note n = setStoreState_events[OF inv io[unfolded v] assms(2)[unfolded v]]
  note k = setStoreState_history[OF inv io[unfolded v] assms(2)[unfolded v]]
  have 1: "previousStates s' =
           take (kept (numberOfPreviousStatesToKeep s) (Suc (length (previousStates s))))
             (hd (previousStates s') # previousStates s)"
    by (rule k(1))
  have 2: "0 < kept (numberOfPreviousStatesToKeep s) (Suc (length (previousStates s)))"
    by (rule k(2))
  from i(1) have 3: "within_cap (length (previousStates s')) (numberOfPreviousStatesToKeep s')"
    by (simp add: store_inv_def)
  have 4: "view d h' (hd (previousStates s')) = view d h (VRef (state s))"
    using i(3) i(5)[of d] by simp
  have 5: "\<exists>src. v = VRef src
             \<and> map_of (props_of (h' ! state s))
                 = map_of (props_of (h ! state s)) ++ map_of (props_of (h ! src))"
    using v m(1) by blast
  have 6: "only_unsubscribed (s\<lparr>previousStates := previousStates s'\<rparr>) s'" by (rule n(3))
  have 7: "subseq (notified evs) (subscribers s)" by (rule n(1))
  have 8: "distinct (notified evs)"
    using distinct_subseq[OF 7] reachable_distinct[OF assms(1)] by simp
  have 9: "\<forall>ev \<in> set evs. ev = ConsoleLog (name s) (VRef (state s))
             \<or> (\<exists>sub st. ev = SetStateCall sub (name s) st h'
                   \<and> only_unsubscribed (s\<lparr>previousStates := previousStates s'\<rparr>) st)"
    using n(2) by blast
  have 10: "e = None \<or> e = Some TypeError \<or> (\<exists>i. e = Some (CallbackThrew i))" by (rule n(5))
  have 11: "(\<forall>sub \<in> set (subscribers s). callback_returns h' sub) \<longrightarrow>
             e = None \<and> subscribers s' = subscribers s \<and> notified evs = subscribers s
             \<and> evs = map (\<lambda>sub. SetStateCall sub (name s) s' h') (subscribers s)
                   @ (if logStateToConsole s then [ConsoleLog (name s) (VRef (state s))] else [])"
  proof
    assume r: "\<forall>sub \<in> set (subscribers s). callback_returns h' sub"
    from n(6)[OF r] have e: "e = None" and ss: "s' = s\<lparr>previousStates := previousStates s'\<rparr>"
      and ev: "evs = map (\<lambda>sub. SetStateCall sub (name s) s' h') (subscribers s)
                   @ (if logStateToConsole s then [ConsoleLog (name s) (VRef (state s))] else [])"
      by simp_all
    have "notified evs = subscribers s"
      by (subst ev) (simp add: notified_append notified_map)
    moreover have "subscribers s' = subscribers s" by (subst ss) simp
    ultimately show "e = None \<and> subscribers s' = subscribers s \<and> notified evs = subscribers s
             \<and> evs = map (\<lambda>sub. SetStateCall sub (name s) s' h') (subscribers s)
                   @ (if logStateToConsole s then [ConsoleLog (name s) (VRef (state s))] else [])"
      using e ev by blast
  qed
  have 12: "subscribers s = pre @ sk # post \<and> (\<forall>sub \<in> set pre. callback_returns h' sub) \<longrightarrow>
             (\<forall>i b. get_setState h' sk = Some (VFun i b) \<and> throws b \<longrightarrow>
                e = Some (CallbackThrew i) \<and> notified evs = pre @ [sk]
                \<and> evs = map (\<lambda>sub. SetStateCall sub (name s)
                                (s\<lparr>previousStates := previousStates s'\<rparr>) h') (pre @ [sk]))
           \<and> (\<not> has_callable_setState h' sk \<longrightarrow>
                e = Some TypeError \<and> subscribers s' = subscribers s \<and> notified evs = pre
                \<and> evs = map (\<lambda>sub. SetStateCall sub (name s) s' h') pre)"
  proof (intro impI conjI allI; elim conjE)
    fix i b
    assume a: "subscribers s = pre @ sk # post" "\<forall>sub \<in> set pre. callback_returns h' sub"
      "get_setState h' sk = Some (VFun i b)" "throws b"
    from n(7)[OF a] show "e = Some (CallbackThrew i)"
      and ev: "evs = map (\<lambda>sub. SetStateCall sub (name s)
                                (s\<lparr>previousStates := previousStates s'\<rparr>) h') (pre @ [sk])"
      by simp_all
    show "notified evs = pre @ [sk]" by (subst ev) (simp only: notified_map)
  next
    assume a: "subscribers s = pre @ sk # post" "\<forall>sub \<in> set pre. callback_returns h' sub"
      "\<not> has_callable_setState h' sk"
    from n(8)[OF a] have e: "e = Some TypeError"
      and ss: "s' = s\<lparr>previousStates := previousStates s'\<rparr>"
      and ev: "evs = map (\<lambda>sub. SetStateCall sub (name s) s' h') pre"
      by simp_all
    show "e = Some TypeError" by (rule e)
    show "evs = map (\<lambda>sub. SetStateCall sub (name s) s' h') pre" by (rule ev)
    show "notified evs = pre" by (subst ev) (simp only: notified_map)
    show "subscribers s' = subscribers s" by (subst ss) simp
  qed
  have 13: "ConsoleLog (name s) (VRef (state s)) \<in> set evs \<longleftrightarrow> e = None \<and> logStateToConsole s"
    by (rule n(4))
  show "previousStates s' =
           take (kept (numberOfPreviousStatesToKeep s) (Suc (length (previousStates s))))
             (hd (previousStates s') # previousStates s)
       \<and> 0 < kept (numberOfPreviousStatesToKeep s) (Suc (length (previousStates s)))
       \<and> within_cap (length (previousStates s')) (numberOfPreviousStatesToKeep s')
       \<and> view d h' (hd (previousStates s')) = view d h (VRef (state s))
       \<and> (\<exists>src. v = VRef src
             \<and> map_of (props_of (h' ! state s))
                 = map_of (props_of (h ! state s)) ++ map_of (props_of (h ! src)))
       \<and> only_unsubscribed (s\<lparr>previousStates := previousStates s'\<rparr>) s'
       \<and> subseq (notified evs) (subscribers s)
       \<and> distinct (notified evs)
       \<and> (\<forall>ev \<in> set evs. ev = ConsoleLog (name s) (VRef (state s))
             \<or> (\<exists>sub st. ev = SetStateCall sub (name s) st h'
                   \<and> only_unsubscribed (s\<lparr>previousStates := previousStates s'\<rparr>) st))
       \<and> (e = None \<or> e = Some TypeError \<or> (\<exists>i. e = Some (CallbackThrew i)))
       \<and> ((\<forall>sub \<in> set (subscribers s). callback_returns h' sub) \<longrightarrow>
             e = None \<and> subscribers s' = subscribers s \<and> notified evs = subscribers s
             \<and> evs = map (\<lambda>sub. SetStateCall sub (name s) s' h') (subscribers s)
                   @ (if logStateToConsole s then [ConsoleLog (name s) (VRef (state s))] else []))
       \<and> (subscribers s = pre @ sk # post \<and> (\<forall>sub \<in> set pre. callback_returns h' sub) \<longrightarrow>
             (\<forall>i b. get_setState h' sk = Some (VFun i b) \<and> throws b \<longrightarrow>
                e = Some (CallbackThrew i) \<and> notified evs = pre @ [sk]
                \<and> evs = map (\<lambda>sub. SetStateCall sub (name s)
                                (s\<lparr>previousStates := previousStates s'\<rparr>) h') (pre @ [sk]))
           \<and> (\<not> has_callable_setState h' sk \<longrightarrow>
                e = Some TypeError \<and> subscribers s' = subscribers s \<and> notified evs = pre
                \<and> evs = map (\<lambda>sub. SetStateCall sub (name s) s' h') pre))
       \<and> (ConsoleLog (name s) (VRef (state s)) \<in> set evs \<longleftrightarrow> e = None \<and> logStateToConsole s)"
    by (intro conjI 1 2 3 4 5 6 7 8 9 10 11 12 13)
qed

theorem not_every_subscriber_notified_counterexample:
  "reachable (example_heap', example_store_subscribed)
   \<and> isObject example_heap' (VRef 3)
   \<and> subscribers example_store_subscribed = [VRef 1, VRef 2]
   \<and> fst (setStoreState (VRef 3) example_heap' example_store_subscribed) = Some (CallbackThrew 0)
   \<and> notified (snd (snd (snd (setStoreState (VRef 3) example_heap' example_store_subscribed))))
        = [VRef 1]
   \<and> reachable (example_heap_leaving', example_store_subscribed)
   \<and> isObject example_heap_leaving' (VRef 3)
   \<and> fst (setStoreState (VRef 3) example_heap_leaving' example_store_subscribed) = None
   \<and> notified (snd (snd (snd (setStoreState (VRef 3) example_heap_leaving' example_store_subscribed))))
        = [VRef 1]
   \<and> subscribers (fst (snd (snd (setStoreState (VRef 3) example_heap_leaving' example_store_subscribed))))
        = [VRef 2]
   \<and> reachable (example_heap_self', example_store_self_subscribed)
   \<and> isObject example_heap_self' (VRef 1)
   \<and> subscribers example_store_self_subscribed = [VRef 2, VRef 0]
   \<and> fst (setStoreState (VRef 1) example_heap_self' example_store_self_subscribed) = Some TypeError
   \<and> notified (snd (snd (snd (setStoreState (VRef 1) example_heap_self' example_store_self_subscribed))))
        = []"
  by (simp add: reachable_example_subscribed isObject_example example_subscribed_fields
      example_subscribed_update reachable_example_leaving isObject_example_leaving
      example_leaving_update reachable_example_self isObject_example_self example_self_fields
      example_self_update del: One_nat_def)

lemma reachable_example_listening: "reachable (example_heap', example_store_listening)"
proof -
  have c2: "has_callable_setState example_heap' (VRef 2)"
    by (simp_all add: has_callable_setState_def get_setState_def isFunction_def example_heap'_def)
  have "reachable (perform (Subscribe (VRef 2)) (example_heap', example_store))"
    by (rule reachable.performed[OF reachable_example]) (simp add: example_heap'_def)
  then show ?thesis
    using c2 by (simp add: subscribe_cases has_callable_setState_def example_store_fields
        example_store_listening_def split: option.splits)
qed

lemma example_listening_fields:
  "state example_store_listening = 4" "previousStates example_store_listening = [VRef 9]"
  "subscribers example_store_listening = [VRef 2]"
  "name example_store_listening = ''counter''"
  "logStateToConsole example_store_listening = False"
  "numberOfPreviousStatesToKeep example_store_listening = Fin 15"
  by (simp_all add: example_store_listening_def example_store_def)

lemma example_listening_update:
  "callback_returns (fst (snd (setStoreState (VRef 3) example_heap' example_store_listening))) (VRef 2)"
  "previousStates (fst (snd (snd (setStoreState (VRef 3) example_heap' example_store_listening))))
     = [VRef 14, VRef 9]"
  by (simp_all add: validateNewState_def isObject_def setStoreState_def notify_def
      call_setState_def addCurrentStateToPreviousStates_def clone_def js_gt_def
      example_store_listening_def
      example_store_def Object_assign_def get_setState_def callback_returns_def
      example_heap'_def Let_def)

lemma not_isObject_number: "\<not> isObject h (VNum n)"
  by (simp add: isObject_def)

lemma example_merged_state:
  "fst (snd (setStoreState (VRef 3) example_heap' example_store_subscribed)) ! 4
     = Obj [(''count'', VNum (Fin 0)), (''user'', VRef 0)]"
  "previousStates (fst (snd (snd (setStoreState (VRef 3) example_heap' example_store_subscribed))))
     = [VRef 14, VRef 9]"
  "get_setState (fst (snd (setStoreState (VRef 3) example_heap' example_store_subscribed))) (VRef 1)
     = Some (VFun 0 Throws)"
  by (simp_all add: validateNewState_def isObject_def setStoreState_def notify_def
      call_setState_def addCurrentStateToPreviousStates_def clone_def js_gt_def
      example_store_subscribed_def
      example_store_def Object_assign_def get_setState_def
      example_heap'_def Let_def)

theorem mutation_effect_in_order_witness:
  "reachable (example_heap', example_store_listening)
   \<and> \<not> isObject example_heap' (VNum (Fin 5))
   \<and> setStoreState (VNum (Fin 5)) example_heap' example_store_listening
       = (Some StateMustBeObject, example_heap', example_store_listening, [ConsoleError (VNum (Fin 5))])
   \<and> isObject example_heap' (VRef 3)
   \<and> callback_returns (fst (snd (setStoreState (VRef 3) example_heap' example_store_listening))) (VRef 2)
   \<and> fst (setStoreState (VRef 3) example_heap' example_store_listening) = None
   \<and> notified (snd (snd (snd (setStoreState (VRef 3) example_heap' example_store_listening))))
       = [VRef 2]
   \<and> previousStates (fst (snd (snd (setStoreState (VRef 3) example_heap' example_store_listening))))
       = [VRef 14, VRef 9]
   \<and> reachable (example_heap', example_store_subscribed)
   \<and> get_setState (fst (snd (setStoreState (VRef 3) example_heap' example_store_subscribed))) (VRef 1)
       = Some (VFun 0 Throws)
   \<and> throws Throws
   \<and> fst (setStoreState (VRef 3) example_heap' example_store_subscribed) = Some (CallbackThrew 0)
   \<and> notified (snd (snd (snd (setStoreState (VRef 3) example_heap' example_store_subscribed))))
       = [VRef 1]
   \<and> reachable (example_heap_self', example_store_self_subscribed)
   \<and> \<not> has_callable_setState example_heap_self'' (VRef 2)
   \<and> setStoreState (VRef 1) example_heap_self' example_store_self_subscribed
       = (Some TypeError, example_heap_self'', example_store_self_broken, [])"
proof -
  have r: "setStoreState (VRef 3) example_heap' example_store_listening =
     (fst (setStoreState (VRef 3) example_heap' example_store_listening),
      fst (snd (setStoreState (VRef 3) example_heap' example_store_listening)),
      fst (snd (snd (setStoreState (VRef 3) example_heap' example_store_listening))),
      snd (snd (snd (setStoreState (VRef 3) example_heap' example_store_listening))))"
    by simp
  have t: "setStoreState (VRef 3) example_heap' example_store_subscribed =
     (fst (setStoreState (VRef 3) example_heap' example_store_subscribed),
      fst (snd (setStoreState (VRef 3) example_heap' example_store_subscribed)),
      fst (snd (snd (setStoreState (VRef 3) example_heap' example_store_subscribed))),
      snd (snd (snd (setStoreState (VRef 3) example_heap' example_store_subscribed))))"
    by simp
  have q: "setStoreState (VNum (Fin 5)) example_heap' example_store_listening
       = (Some StateMustBeObject, example_heap', example_store_listening, [ConsoleError (VNum (Fin 5))])"
    by (simp add: setStoreState_invalid not_isObject_number throwError_def strict_eq_def)
  from mutation_effect_in_order[OF reachable_example_listening r, of 1 "[]" "VRef 2" "[]"]
    mutation_effect_in_order[OF reachable_example_listening q, of 1 "[]" "VRef 2" "[]"]
    mutation_effect_in_order[OF reachable_example_subscribed t, of 1 "[]" "VRef 1" "[VRef 2]"]
    mutation_effect_in_order[OF reachable_example_self example_self_update,
      of 1 "[]" "VRef 2" "[VRef 0]"]
    q isObject_example example_listening_update reachable_example_listening not_isObject_number
    reachable_example_subscribed example_merged_state(3) reachable_example_self
    example_self_not_callable example_self_update isObject_example_self(1)
  show ?thesis
    by (simp add: example_listening_fields example_subscribed_fields example_self_fields
          del: One_nat_def)
qed



lemma within_cap_not_gt: "within_cap m n \<Longrightarrow> \<not> js_gt (Fin (of_nat m)) n"
  by (cases n) (simp_all add: js_gt_def)

lemma frozen_below:
  assumes "history_frozen h s" and "p \<in> set (previousStates s)"
  shows "\<exists>a. p = VRef a \<and> a < length h"
proof -
  from assms obtain lo hi a where "closed_region h lo hi" "p = VRef a" "a < hi"
    unfolding history_frozen_def by blast
  then show ?thesis by (auto simp: closed_region_def)
qed

lemma example_same_values:
  "\<forall>(k, x) \<in> set (props_of (example_heap' ! 0)).
      map_of (props_of (example_heap' ! state example_store_listening)) k = Some x"
  "\<forall>(k, x) \<in> set (props_of (example_heap' ! 0)).
      map_of (props_of (example_heap' ! state example_store_subscribed)) k = Some x"
  "\<forall>(k, x) \<in> set (props_of (example_heap_self'' ! 1)).
      map_of (props_of (example_heap_self'' ! state example_store_self_broken)) k = Some x"
  by (simp_all add: example_heap'_def example_listening_fields example_subscribed_fields
      example_heap_self''_def example_self_fields)

lemma isObject_example_zero: "isObject example_heap' (VRef 0)"
  by (simp add: isObject_def example_heap'_def)

lemma example_unchanged_update:
  "callback_returns (fst (snd (setStoreState (VRef 0) example_heap' example_store_listening))) (VRef 2)"
  "previousStates (fst (snd (snd (setStoreState (VRef 0) example_heap' example_store_listening))))
     = [VRef 14, VRef 9]"
  "fst (snd (setStoreState (VRef 0) example_heap' example_store_listening)) ! 4 = example_heap' ! 4"
  by (simp_all add: validateNewState_def isObject_def setStoreState_def notify_def
      call_setState_def addCurrentStateToPreviousStates_def clone_def js_gt_def
      example_store_listening_def
      example_store_def Object_assign_def get_setState_def callback_returns_def
      example_heap'_def Let_def)

lemma example_unchanged_update_throwing:
  "fst (setStoreState (VRef 0) example_heap' example_store_subscribed) = Some (CallbackThrew 0)"
  "notified (snd (snd (snd (setStoreState (VRef 0) example_heap' example_store_subscribed))))
     = [VRef 1]"
  "fst (snd (setStoreState (VRef 0) example_heap' example_store_subscribed)) ! 4 = example_heap' ! 4"
  "get_setState (fst (snd (setStoreState (VRef 0) example_heap' example_store_subscribed))) (VRef 1)
     = Some (VFun 0 Throws)"
  by (simp_all add: validateNewState_def isObject_def setStoreState_def notify_def
      call_setState_def addCurrentStateToPreviousStates_def clone_def js_gt_def
      example_store_subscribed_def
      example_store_def Object_assign_def get_setState_def
      example_heap'_def Let_def)

lemma example_unchanged_update_leaving:
  "fst (setStoreState (VRef 0) example_heap_leaving' example_store_subscribed) = None"
  "notified (snd (snd (snd (setStoreState (VRef 0) example_heap_leaving' example_store_subscribed))))
     = [VRef 1]"
  "subscribers (fst (snd (snd (setStoreState (VRef 0) example_heap_leaving' example_store_subscribed))))
     = [VRef 2]"
  "fst (snd (setStoreState (VRef 0) example_heap_leaving' example_store_subscribed)) ! 4
     = example_heap_leaving' ! 4"
  by (simp_all add: validateNewState_def isObject_def setStoreState_def notify_def
      call_setState_def unsubscribe_def strict_eq_def doLogStateToConsole_def
      addCurrentStateToPreviousStates_def clone_def js_gt_def
      example_store_subscribed_def example_store_def Object_assign_def get_setState_def
      example_heap_leaving'_def Let_def)

lemma example_unchanged_update_self:
  "fst (setStoreState (VRef 1) example_heap_self'' example_store_self_broken) = Some TypeError"
  "notified (snd (snd (snd (setStoreState (VRef 1) example_heap_self'' example_store_self_broken))))
     = []"
  "fst (snd (setStoreState (VRef 1) example_heap_self'' example_store_self_broken)) ! 2
     = example_heap_self'' ! 2"
  "previousStates (fst (snd (snd (setStoreState (VRef 1) example_heap_self'' example_store_self_broken))))
     = [VRef 14, VRef 8, VRef 5]"
  "\<not> has_callable_setState
       (fst (snd (setStoreState (VRef 1) example_heap_self'' example_store_self_broken))) (VRef 2)"
  by (simp_all add: validateNewState_def isObject_def setStoreState_def notify_def
      call_setState_def addCurrentStateToPreviousStates_def clone_def js_gt_def
      example_store_self_broken_def Object_assign_def get_setState_def
      has_callable_setState_def isFunction_def example_heap_self''_def Let_def)

text \<open>
  C10, as the code has it.  \<^verbatim>\<open>setStoreState\<close> does not look whether anything changes.  When
  it is called with a mapping object all of whose properties the state already has with the
  same values (the empty object for one), the state object is left as it was, and still a
  new snapshot, deeply equal to the state, is put at the front of the history: the history
  grows by one entry while the bound allows, and else loses its oldest entry.  And still
  the subscribers are called as after any other call: in the order of the list of
  subscribers and none of them twice; all of them, with nothing thrown, when the \<^verbatim>\<open>setState\<close>
  of every subscriber returns and leaves the store alone; and when those of the subscribers
  \<open>pre\<close> do so, \<open>pre\<close> and the next subscriber \<open>sk\<close> when the \<^verbatim>\<open>setState\<close> of \<open>sk\<close> throws, which
  the call then throws too, and just \<open>pre\<close> when \<open>sk\<close> has no callable \<^verbatim>\<open>setState\<close> any more,
  which makes the call throw a TypeError.

  So not every subscriber is called in every case: the calls end at a \<^verbatim>\<open>setState\<close> that
  throws or is no function any more, and a \<^verbatim>\<open>setState\<close> that unsubscribes its own component
  makes the loop pass over the subscriber that follows.
\<close>

theorem no_change_detection:
  assumes "reachable (h, s)" and "isObject h (VRef src)"
    and "\<forall>(k, x) \<in> set (props_of (h ! src)). map_of (props_of (h ! state s)) k = Some x"
    and "setStoreState (VRef src) h s = (e, h', s', evs)"
  shows "h' ! state s' = h ! state s
       \<and> previousStates s' \<noteq> []
       \<and> hd (previousStates s') \<notin> set (previousStates s)
       \<and> view d h' (hd (previousStates s')) = view d h (VRef (state s))
       \<and> previousStates s' =
           take (kept (numberOfPreviousStatesToKeep s) (Suc (length (previousStates s))))
             (hd (previousStates s') # previousStates s)
       \<and> (within_cap (Suc (length (previousStates s))) (numberOfPreviousStatesToKeep s) \<longrightarrow>
             previousStates s' = hd (previousStates s') # previousStates s)
       \<and> (\<not> within_cap (Suc (length (previousStates s))) (numberOfPreviousStatesToKeep s) \<longrightarrow>
             previousStates s' = hd (previousStates s') # butlast (previousStates s))
       \<and> subseq (notified evs) (subscribers s)
       \<and> distinct (notified evs)
       \<and> (e = None \<or> e = Some TypeError \<or> (\<exists>i. e = Some (CallbackThrew i)))
       \<and> ((\<forall>sub \<in> set (subscribers s). callback_returns h' sub) \<longrightarrow>
             e = None \<and> notified evs = subscribers s)
       \<and> (subscribers s = pre @ sk # post \<and> (\<forall>sub \<in> set pre. callback_returns h' sub) \<longrightarrow>
             (\<forall>i b. get_setState h' sk = Some (VFun i b) \<and> throws b \<longrightarrow>
                e = Some (CallbackThrew i) \<and> notified evs = pre @ [sk])
           \<and> (\<not> has_callable_setState h' sk \<longrightarrow> e = Some TypeError \<and> notified evs = pre))"
proof -
  from assms(1) have inv: "store_inv (h, s)" using reachable_inv by fastforce
  then have st: "isObject h (VRef (state s))" and fr: "history_frozen h s"
    by (simp_all add: store_inv_def)
  note i = setStoreState_inv[OF inv assms(2,4)]
  note m = setStoreState_merge[OF inv assms(2,4)]
  note n = setStoreState_events[OF inv assms(2,4)]
  note k = setStoreState_history[OF inv assms(2,4)]
  note f = setStoreState_fields[OF assms(4)]
  from st obtain tp where tp: "h ! state s = Obj tp" using isObject_ref by blast
  from assms(3) have "assign_props (props_of (h ! state s)) (props_of (h ! src)) = props_of (h ! state s)"
    by (intro assign_props_same) auto
  with m(3) tp f have 1: "h' ! state s' = h ! state s" by simp
  have 2: "previousStates s' \<noteq> []" by (rule i(2))
  have 3: "hd (previousStates s') \<notin> set (previousStates s)"
    using frozen_below[OF fr] i(3) by fastforce
  have 4: "view d h' (hd (previousStates s')) = view d h (VRef (state s))"
    using i(3) i(5)[of d] by simp
  have 5: "previousStates s' =
           take (kept (numberOfPreviousStatesToKeep s) (Suc (length (previousStates s))))
             (hd (previousStates s') # previousStates s)"
    by (rule k(1))
  have 6: "within_cap (Suc (length (previousStates s))) (numberOfPreviousStatesToKeep s) \<longrightarrow>
             previousStates s' = hd (previousStates s') # previousStates s"
    using k(3) by blast
  have 7: "\<not> within_cap (Suc (length (previousStates s))) (numberOfPreviousStatesToKeep s) \<longrightarrow>
             previousStates s' = hd (previousStates s') # butlast (previousStates s)"
    using k(4) by blast
  have 8: "subseq (notified evs) (subscribers s)" by (rule n(1))
  have 9: "distinct (notified evs)"
    using distinct_subseq[OF 8] reachable_distinct[OF assms(1)] by simp
  have 10: "e = None \<or> e = Some TypeError \<or> (\<exists>i. e = Some (CallbackThrew i))" by (rule n(5))
  have 11: "(\<forall>sub \<in> set (subscribers s). callback_returns h' sub) \<longrightarrow>
             e = None \<and> notified evs = subscribers s"
  proof
    assume r: "\<forall>sub \<in> set (subscribers s). callback_returns h' sub"
    from n(6)[OF r] have e: "e = None"
      and ev: "evs = map (\<lambda>sub. SetStateCall sub (name s) s' h') (subscribers s)
                   @ (if logStateToConsole s then [ConsoleLog (name s) (VRef (state s))] else [])"
      by simp_all
    have "notified evs = subscribers s"
      by (subst ev) (simp add: notified_append notified_map)
    with e show "e = None \<and> notified evs = subscribers s" by simp
  qed
  have 12: "subscribers s = pre @ sk # post \<and> (\<forall>sub \<in> set pre. callback_returns h' sub) \<longrightarrow>
             (\<forall>i b. get_setState h' sk = Some (VFun i b) \<and> throws b \<longrightarrow>
                e = Some (CallbackThrew i) \<and> notified evs = pre @ [sk])
           \<and> (\<not> has_callable_setState h' sk \<longrightarrow> e = Some TypeError \<and> notified evs = pre)"
  proof (intro impI conjI allI; elim conjE)
    fix i b
    assume a: "subscribers s = pre @ sk # post" "\<forall>sub \<in> set pre. callback_returns h' sub"
      "get_setState h' sk = Some (VFun i b)" "throws b"
    from n(7)[OF a] have e: "e = Some (CallbackThrew i)"
      and ev: "evs = map (\<lambda>sub. SetStateCall sub (name s)
                                (s\<lparr>previousStates := previousStates s'\<rparr>) h') (pre @ [sk])"
      by simp_all
    show "e = Some (CallbackThrew i)" by (rule e)
    show "notified evs = pre @ [sk]" by (subst ev) (simp only: notified_map)
  next
    assume a: "subscribers s = pre @ sk # post" "\<forall>sub \<in> set pre. callback_returns h' sub"
      "\<not> has_callable_setState h' sk"
    from n(8)[OF a] have e: "e = Some TypeError"
      and ev: "evs = map (\<lambda>sub. SetStateCall sub (name s) s' h') pre"
      by simp_all
    show "e = Some TypeError" by (rule e)
    show "notified evs = pre" by (subst ev) (simp only: notified_map)
  qed
  show ?thesis by (intro conjI 1 2 3 4 5 6 7 8 9 10 11 12)
qed

theorem no_change_detection_counterexample:
  "reachable (example_heap', example_store_subscribed)
   \<and> isObject example_heap' (VRef 0)
   \<and> fst (snd (setStoreState (VRef 0) example_heap' example_store_subscribed)) ! 4 = example_heap' ! 4
   \<and> subscribers example_store_subscribed = [VRef 1, VRef 2]
   \<and> fst (setStoreState (VRef 0) example_heap' example_store_subscribed) = Some (CallbackThrew 0)
   \<and> notified (snd (snd (snd (setStoreState (VRef 0) example_heap' example_store_subscribed))))
        = [VRef 1]
   \<and> reachable (example_heap_leaving', example_store_subscribed)
   \<and> isObject example_heap_leaving' (VRef 0)
   \<and> fst (snd (setStoreState (VRef 0) example_heap_leaving' example_store_subscribed)) ! 4
        = example_heap_leaving' ! 4
   \<and> fst (setStoreState (VRef 0) example_heap_leaving' example_store_subscribed) = None
   \<and> notified (snd (snd (snd (setStoreState (VRef 0) example_heap_leaving' example_store_subscribed))))
        = [VRef 1]
   \<and> subscribers (fst (snd (snd (setStoreState (VRef 0) example_heap_leaving' example_store_subscribed))))
        = [VRef 2]
   \<and> reachable (example_heap_self'', example_store_self_broken)
   \<and> isObject example_heap_self'' (VRef 1)
   \<and> fst (snd (setStoreState (VRef 1) example_heap_self'' example_store_self_broken)) ! 2
        = example_heap_self'' ! 2
   \<and> subscribers example_store_self_broken = [VRef 2, VRef 0]
   \<and> fst (setStoreState (VRef 1) example_heap_self'' example_store_self_broken) = Some TypeError
   \<and> notified (snd (snd (snd (setStoreState (VRef 1) example_heap_self'' example_store_self_broken))))
        = []"
  by (simp add: reachable_example_subscribed isObject_example_zero example_subscribed_fields
      example_unchanged_update_throwing reachable_example_leaving isObject_example_leaving
      example_unchanged_update_leaving reachable_example_self_broken isObject_example_self
      example_self_fields example_unchanged_update_self del: One_nat_def)

theorem no_change_detection_witness:
  "reachable (example_heap', example_store_listening)
   \<and> isObject example_heap' (VRef 0)
   \<and> within_cap (Suc (length (previousStates example_store_listening)))
        (numberOfPreviousStatesToKeep example_store_listening)
   \<and> callback_returns (fst (snd (setStoreState (VRef 0) example_heap' example_store_listening))) (VRef 2)
   \<and> fst (snd (setStoreState (VRef 0) example_heap' example_store_listening)) ! 4 = example_heap' ! 4
   \<and> previousStates (fst (snd (snd (setStoreState (VRef 0) example_heap' example_store_listening))))
        = [VRef 14, VRef 9]
   \<and> fst (setStoreState (VRef 0) example_heap' example_store_listening) = None
   \<and> notified (snd (snd (snd (setStoreState (VRef 0) example_heap' example_store_listening))))
        = [VRef 2]
   \<and> reachable (example_heap', example_store_subscribed)
   \<and> get_setState (fst (snd (setStoreState (VRef 0) example_heap' example_store_subscribed))) (VRef 1)
        = Some (VFun 0 Throws)
   \<and> throws Throws
   \<and> fst (setStoreState (VRef 0) example_heap' example_store_subscribed) = Some (CallbackThrew 0)
   \<and> notified (snd (snd (snd (setStoreState (VRef 0) example_heap' example_store_subscribed))))
        = [VRef 1]
   \<and> reachable (example_heap_self'', example_store_self_broken)
   \<and> isObject example_heap_self'' (VRef 1)
   \<and> \<not> has_callable_setState
         (fst (snd (setStoreState (VRef 1) example_heap_self'' example_store_self_broken))) (VRef 2)
   \<and> fst (setStoreState (VRef 1) example_heap_self'' example_store_self_broken) = Some TypeError
   \<and> notified (snd (snd (snd (setStoreState (VRef 1) example_heap_self'' example_store_self_broken))))
        = []"
proof -
  have r: "setStoreState (VRef 0) example_heap' example_store_listening =
     (fst (setStoreState (VRef 0) example_heap' example_store_listening),
      fst (snd (setStoreState (VRef 0) example_heap' example_store_listening)),
      fst (snd (snd (setStoreState (VRef 0) example_heap' example_store_listening))),
      snd (snd (snd (setStoreState (VRef 0) example_heap' example_store_listening))))"
    by simp
  have t: "setStoreState (VRef 0) example_heap' example_store_subscribed =
     (fst (setStoreState (VRef 0) example_heap' example_store_subscribed),
      fst (snd (setStoreState (VRef 0) example_heap' example_store_subscribed)),
      fst (snd (snd (setStoreState (VRef 0) example_heap' example_store_subscribed))),
      snd (snd (snd (setStoreState (VRef 0) example_heap' example_store_subscribed))))"
    by simp
  have u: "setStoreState (VRef 1) example_heap_self'' example_store_self_broken =
     (fst (setStoreState (VRef 1) example_heap_self'' example_store_self_broken),
      fst (snd (setStoreState (VRef 1) example_heap_self'' example_store_self_broken)),
      fst (snd (snd (setStoreState (VRef 1) example_heap_self'' example_store_self_broken))),
      snd (snd (snd (setStoreState (VRef 1) example_heap_self'' example_store_self_broken))))"
    by simp
  have w: "within_cap (Suc (length (previousStates example_store_listening)))
        (numberOfPreviousStatesToKeep example_store_listening)"
    by (simp add: example_listening_fields)
  from no_change_detection[OF reachable_example_listening isObject_example_zero
      example_same_values(1) r, of 1 "[]" "VRef 2" "[]"]
    no_change_detection[OF reachable_example_subscribed isObject_example_zero
      example_same_values(2) t, of 1 "[]" "VRef 1" "[VRef 2]"]
    no_change_detection[OF reachable_example_self_broken isObject_example_self(2)
      example_same_values(3) u, of 1 "[]" "VRef 2" "[VRef 0]"]
    reachable_example_listening isObject_example_zero w example_unchanged_update
    reachable_example_subscribed example_unchanged_update_throwing
    reachable_example_self_broken isObject_example_self(2) example_unchanged_update_self
  show ?thesis
    by (simp add: example_listening_fields example_subscribed_fields example_self_fields
          del: One_nat_def)
qed

section \<open>Publishing the registry, attaching and detaching\<close>

lemma first_non_instance_instances: "first_non_instance (map Instance ids) = None"
  by (induction ids) simp_all

lemma instance_ids_instances: "instance_ids (map Instance ids) = ids"
  by (induction ids) simp_all

lemma build_registry_duplicate:
  assumes "\<not> distinct (names0 @ map (\<lambda>i. name (st i)) ids)" and "distinct names0"
  shows "\<exists>n ys zs. build_registry st names0 obj ids
                      = Inl (DuplicateStoreName n, [ConsoleErrorNames ys])
           \<and> names0 @ map (\<lambda>i. name (st i)) ids = ys @ n # zs \<and> distinct ys \<and> n \<in> set ys"
  using assms
proof (induction ids arbitrary: names0 obj)
  case Nil
  then show ?case by simp
next
  case (Cons i rest)
  show ?case
  proof (cases "name (st i) \<in> set names0")
    case True
    have "build_registry st names0 obj (i # rest)
            = Inl (DuplicateStoreName (name (st i)), [ConsoleErrorNames names0])"
      using True by simp
    moreover have "names0 @ map (\<lambda>i. name (st i)) (i # rest)
            = names0 @ name (st i) # map (\<lambda>i. name (st i)) rest"
      by simp
    ultimately show ?thesis using True Cons.prems(2)
      by (intro exI[of _ "name (st i)"] exI[of _ names0]
            exI[of _ "map (\<lambda>i. name (st i)) rest"]) simp
  next
    case False
    with Cons.prems have d: "distinct (names0 @ [name (st i)])"
      and nd: "\<not> distinct ((names0 @ [name (st i)]) @ map (\<lambda>i. name (st i)) rest)"
      by simp_all
    from Cons.IH[OF nd d] False
    show ?thesis by simp
  qed
qed

lemma build_registry_distinct:
  assumes "distinct (names0 @ map (\<lambda>i. name (st i)) ids)"
  shows "\<exists>obj'. build_registry st names0 obj ids = Inr obj'"
  using assms by (induction ids arbitrary: names0 obj) simp_all

lemma invalid_argument_keeps_registry:
  "fst (snd (makeStoresGloballyAvailable st (NotArray v) slot)) = slot"
  "first_non_instance els \<noteq> None \<Longrightarrow>
     fst (snd (makeStoresGloballyAvailable st (ArrayOf els) slot)) = slot"
  by (auto simp: makeStoresGloballyAvailable_def throwError_def Let_def)

lemma example_stores_names: "name (example_stores i) = ''counter''"
  by (simp add: example_stores_def example_store_def)

lemma detach_always_throws: "componentWillUnmount this a = (Some TypeError, a)"
  by (simp add: componentWillUnmount_def split: option.splits)

lemma example_attach:
  "subscribeToStores (VRef 2) (VRef 10) example_app
     = (None, [(''counter'', 0)], example_app_attached, [])"
  by (simp add: subscribeToStores_def example_app_def example_app_attached_def
      example_heap'_def subscribe_def get_setState_def isFunction_def example_stores_def
      example_store_def example_store_listening_def)

text \<open>
  C4 asks that a call of \<^verbatim>\<open>makeStoresGloballyAvailable\<close> which fails for a duplicate name
  leaves the registry published before as it was.  The code does not.  For every registry
  published before and every array of Store instances in which two elements have the same
  name, the call throws the duplicate-name error for the first element whose name an
  earlier element has, as C4 says; but by then \<^verbatim>\<open>delete root[rootObjectName]\<close> has run, and
  the assignment that would publish a registry is not reached: the slot is empty after the
  call, whatever it held.  The two other checks of the function come before the deletion
  and leave the slot alone.
\<close>

theorem duplicate_name_discards_registry:
  assumes "\<not> distinct (map (\<lambda>i. name (st i)) ids)"
  shows "\<exists>n ys zs.
           makeStoresGloballyAvailable st (ArrayOf (map Instance ids)) slot
             = (Some (DuplicateStoreName n), None, [ConsoleErrorNames ys])
         \<and> map (\<lambda>i. name (st i)) ids = ys @ n # zs \<and> distinct ys \<and> n \<in> set ys"
proof -
  from build_registry_duplicate[of "[]" st ids "[]"] assms obtain n ys zs where
    b: "build_registry st [] [] ids = Inl (DuplicateStoreName n, [ConsoleErrorNames ys])"
    and l: "map (\<lambda>i. name (st i)) ids = ys @ n # zs" "distinct ys" "n \<in> set ys"
    by auto
  from b have "makeStoresGloballyAvailable st (ArrayOf (map Instance ids)) slot
             = (Some (DuplicateStoreName n), None, [ConsoleErrorNames ys])"
    by (simp add: makeStoresGloballyAvailable_def first_non_instance_instances
        instance_ids_instances)
  with l show ?thesis by blast
qed

theorem duplicate_name_discards_registry_witness:
  "makeStoresGloballyAvailable example_stores (ArrayOf [Instance 0]) None
     = (None, Some [(''counter'', 0)], [])
   \<and> \<not> distinct (map (\<lambda>i. name (example_stores i)) [0, 1])
   \<and> makeStoresGloballyAvailable example_stores (ArrayOf (map Instance [0, 1]))
        (Some [(''counter'', 0)])
     = (Some (DuplicateStoreName ''counter''), None, [ConsoleErrorNames [''counter'']])
   \<and> fst (snd (makeStoresGloballyAvailable example_stores (ArrayOf (map Instance [0, 1]))
        (Some [(''counter'', 0)]))) \<noteq> Some [(''counter'', 0)]
   \<and> fst (snd (makeStoresGloballyAvailable example_stores (NotArray VNull)
        (Some [(''counter'', 0)]))) = Some [(''counter'', 0)]
   \<and> fst (snd (makeStoresGloballyAvailable example_stores (ArrayOf [Instance 0, NotInstance VNull])
        (Some [(''counter'', 0)]))) = Some [(''counter'', 0)]"
proof -
  have nd: "\<not> distinct (map (\<lambda>i. name (example_stores i)) [0, 1])"
    by (simp add: example_stores_names)
  from duplicate_name_discards_registry[OF nd, of "Some [(''counter'', 0)]"] nd
  show ?thesis
    by (simp add: makeStoresGloballyAvailable_def example_stores_names throwError_def Let_def)
qed

text \<open>
  C9 asks that detachment unsubscribes the component from every store it is attached to.
  The code does not: a component that has attached to the store \<^verbatim>\<open>counter\<close> is among its
  subscribers; \<^verbatim>\<open>componentWillUnmount\<close> then throws a TypeError, because the registry's
  \<^verbatim>\<open>stores\<close> is a plain object without \<^verbatim>\<open>forEach\<close>, and the component is still among the
  subscribers afterwards.
\<close>

theorem detach_leaves_component_subscribed:
  "subscribeToStores (VRef 2) (VRef 10) example_app
     = (None, [(''counter'', 0)], example_app_attached, [])
   \<and> componentWillUnmount (VRef 2) example_app_attached = (Some TypeError, example_app_attached)
   \<and> subscribers (store_of example_app_attached 0) = [VRef 2]
   \<and> VRef 2 \<in> set (subscribers (store_of (snd (componentWillUnmount (VRef 2) example_app_attached)) 0))"
  by (simp add: example_attach detach_always_throws example_app_attached_def
      example_listening_fields)

end
